theory Spec2Isabelle
  imports Main "HOL-Library.AList" "HOL-Library.Multiset"
begin

section \<open>JavaScript values built by the translator\<close>

text \<open>
  The document returned by \<open>trpc2OpenApi\<close> is a tree of object literals, arrays, strings and
  the boolean \<open>true\<close>, with the results of \<open>z.toJSONSchema\<close> embedded as they are. An
  object is the list of its own properties in property order (the order \<open>Object.entries\<close>
  and \<open>JSON.stringify\<close> see), so that equality of two objects is equality of key order
  as well; \<open>map_of\<close> reads an object as the unordered mapping the specification speaks of.
  The schema fragments of the conversion service are opaque values of type \<open>'s\<close>.
\<close>

datatype 's json =
    Schema 's
  | JString string
  | JBool bool
  | JArray "'s json list"
  | JObject "(string \<times> 's json) list"

type_synonym 's obj = "(string \<times> 's json) list"

text \<open>
  \<open>obj[k] = v\<close> on an ordinary object: an existing property keeps its place and takes the
  new value, a new property goes to the end. (Keys that are array indices would be
  ordered first by the engine; the keys written by this program are \<open>operationId\<close>,
  \<open>parameters\<close>, \<open>requestBody\<close>, \<open>responses\<close> and routes, which contain a slash.)
\<close>

definition set_property :: "'s obj \<Rightarrow> string \<Rightarrow> 's json \<Rightarrow> 's obj" where
  "set_property obj k v = AList.update k v obj"

text \<open>\<open>Object.assign(target, source)\<close>: every own property of the source, in order, is set
  on the target. The copy is shallow: a value of the source replaces the target's value whole.\<close>

definition Object_assign :: "'s obj \<Rightarrow> 's obj \<Rightarrow> 's obj" where
  "Object_assign target source = fold (\<lambda>(k, v) t. set_property t k v) source target"

section \<open>The procedure tree\<close>

text \<open>
  \<open>AnyProcedure\<close> is \<open>{ _def: { procedure: true, type, inputs, output? } }\<close>; the field
  \<open>procedure\<close> has the literal type \<open>true\<close> and carries no information, so the record
  keeps the other three (\<open>output\<close> is written \<open>outputType\<close>, the specification's name for
  it). The validators (\<open>z.ZodType\<close>) are opaque values of type \<open>'z\<close>.
  A \<open>RouterRecord\<close> is an object whose values are procedures or router records; it is
  given by its entries in the order \<open>Object.entries\<close> yields them, which is
  the order of declaration for keys that are not array indices.
\<close>

datatype procedure_type = Query | Mutation | Subscription

record 'z procedure_def =
  type :: procedure_type
  inputs :: "'z list"
  outputType :: "'z option"

datatype 'z entry =
    AnyProcedure "'z procedure_def"
  | RouterRecord "(string \<times> 'z entry) list"

type_synonym 'z router_record = "(string \<times> 'z entry) list"

text \<open>Reading a property of \<open>undefined\<close> throws a \<open>TypeError\<close>; nothing else in the
  program can throw (the conversion service is taken to be a total function, as the
  specification describes it).\<close>

datatype error = TypeError

section \<open>The procedure translator\<close>

definition PROCEDURE_TYPE_HTTP_METHOD_MAP :: "procedure_type \<Rightarrow> string option" where
  "PROCEDURE_TYPE_HTTP_METHOD_MAP t =
     (case t of Query \<Rightarrow> Some ''get'' | Mutation \<Rightarrow> Some ''post'' | Subscription \<Rightarrow> None)"

text \<open>
  \<open>getPathsForProcedure\<close>: the three assignments to \<open>operation\<close> are the three stages
  \<open>operation0\<close>, \<open>operation1\<close>, \<open>operation2\<close>. \<open>def.inputs[0] != null\<close> is false exactly
  for the empty array, the elements of \<open>inputs\<close> being validators.
\<close>

definition getPathsForProcedure ::
  "('z \<Rightarrow> 's) \<Rightarrow> string \<Rightarrow> string \<Rightarrow> 'z procedure_def \<Rightarrow> 's obj" where
  "getPathsForProcedure toJSONSchema basePath procedureName def =
     (case PROCEDURE_TYPE_HTTP_METHOD_MAP (type def) of
        None \<Rightarrow> []
      | Some method \<Rightarrow>
          (let operation0 = [(''operationId'', JString procedureName)];
               operation1 =
                 (case inputs def of
                    [] \<Rightarrow> operation0
                  | z # _ \<Rightarrow>
                      (let jsonSchema = toJSONSchema z;
                           content =
                             [(''application/json'', JObject [(''schema'', Schema jsonSchema)])]
                       in if method = ''get''
                          then set_property operation0 ''parameters''
                                 (JArray [JObject [(''name'', JString ''input''),
                                                   (''in'', JString ''query''),
                                                   (''content'', JObject content)]])
                          else set_property operation0 ''requestBody''
                                 (JObject [(''required'', JBool True),
                                           (''content'', JObject content)])));
               operation2 =
                 (case outputType def of
                    Some z \<Rightarrow>
                      (let outputJsonSchema = toJSONSchema z;
                           responseSchema =
                             JObject
                               [(''type'', JString ''object''),
                                (''properties'',
                                   JObject
                                     [(''result'',
                                         JObject
                                           [(''type'', JString ''object''),
                                            (''properties'',
                                               JObject [(''data'', Schema outputJsonSchema)]),
                                            (''required'', JArray [JString ''data''])])]),
                                (''required'', JArray [JString ''result''])]
                       in set_property operation1 ''responses''
                            (JObject
                               [(''200'',
                                   JObject
                                     [(''description'', JString ''Successful response''),
                                      (''content'',
                                         JObject
                                           [(''application/json'',
                                               JObject [(''schema'', responseSchema)])])])]))
                  | None \<Rightarrow>
                      set_property operation1 ''responses''
                        (JObject
                           [(''200'',
                               JObject [(''description'', JString ''Successful response'')])]))
           in [(basePath @ ''/'' @ procedureName, JObject [(method, JObject operation2)])]))"

section \<open>The tree walker\<close>

text \<open>
  \<open>isProcedure\<close> evaluates \<open>maybeProcedure._def.procedure === true\<close>. On a procedure,
  \<open>_def.procedure\<close> is \<open>true\<close>. On a router record the property \<open>_def\<close> is an entry of
  the record, if it has one of that name: then \<open>.procedure\<close> of that entry is an object or
  \<open>undefined\<close>, never \<open>true\<close>, and the guard answers \<open>false\<close>. A router record with no
  entry named \<open>_def\<close> gives \<open>undefined\<close> for \<open>_def\<close>, and reading \<open>.procedure\<close> of it
  throws. (The heap model below performs the two property reads; \<open>isProcedure_heap_procedure\<close>
  and \<open>isProcedure_heap_record\<close> show that they give these answers.)
\<close>

fun isProcedure :: "'z entry \<Rightarrow> error + bool" where
  "isProcedure (AnyProcedure p) = Inr True"
| "isProcedure (RouterRecord r) =
     (case map_of r ''_def'' of None \<Rightarrow> Inl TypeError | Some v \<Rightarrow> Inr False)"

text \<open>
  \<open>getPathsForRouterRecord\<close> starts from \<open>paths = {}\<close> and runs the \<open>for\<close> loop,
  \<open>forEntries\<close>, over the entries. The guard is evaluated first and its exception ends the
  walk; when it answers, its answer is the entry's constructor (\<open>isProcedure_sound\<close> below),
  so the branch taken is the one the constructor names.
\<close>

fun getPathsForRouterRecord ::
      "('z \<Rightarrow> 's) \<Rightarrow> string \<Rightarrow> 'z router_record \<Rightarrow> error + 's obj"
  and forEntries ::
      "('z \<Rightarrow> 's) \<Rightarrow> string \<Rightarrow> 'z router_record \<Rightarrow> 's obj \<Rightarrow> error + 's obj"
where
  "getPathsForRouterRecord toJSONSchema basePath routerRecord =
     forEntries toJSONSchema basePath routerRecord []"
| "forEntries toJSONSchema basePath [] paths = Inr paths"
| "forEntries toJSONSchema basePath ((procedureName, procedureOrRouterRecord) # rest) paths =
     (case isProcedure procedureOrRouterRecord of
        Inl err \<Rightarrow> Inl err
      | Inr answer \<Rightarrow>
          (case procedureOrRouterRecord of
             AnyProcedure p \<Rightarrow>
               forEntries toJSONSchema basePath rest
                 (Object_assign paths
                    (getPathsForProcedure toJSONSchema basePath procedureName p))
           | RouterRecord r \<Rightarrow>
               (case getPathsForRouterRecord toJSONSchema basePath r of
                  Inl err \<Rightarrow> Inl err
                | Inr sub \<Rightarrow>
                    forEntries toJSONSchema basePath rest (Object_assign paths sub))))"

section \<open>The same program on a heap\<close>

text \<open>
  The functional model above cannot say that the walk leaves its arguments alone: it has
  no objects to change. This second model runs the same statements on a heap. A value is
  a primitive, a reference to a heap cell, or an opaque validator or schema fragment (the
  program never writes to either); a cell is an object or an array; an object literal
  allocates a new cell at the end of the heap. A program maps a heap to an outcome and a
  heap. The outcome \<open>Stuck\<close> stands for a run the model does not follow: the fuel of the
  recursion is used up, or a value is not of the type the source declares for it.
\<close>

type_synonym addr = nat

datatype ('z, 's) val = Undefined | Bool bool | Str string | Ref addr | Zod 'z | Fragment 's

datatype ('z, 's) cell = Obj "(string \<times> ('z, 's) val) list" | Arr "('z, 's) val list"

type_synonym ('z, 's) heap = "('z, 's) cell list"

datatype 'a outcome = Returns 'a | Throws error | Stuck

type_synonym ('a, 'z, 's) prog = "('z, 's) heap \<Rightarrow> 'a outcome \<times> ('z, 's) heap"

text \<open>Sequencing: an exception ends the run and keeps the heap as it is then.\<close>

definition ret :: "'a \<Rightarrow> ('a, 'z, 's) prog" where
  "ret x = (\<lambda>h. (Returns x, h))"

definition bind :: "('a, 'z, 's) prog \<Rightarrow> ('a \<Rightarrow> ('b, 'z, 's) prog) \<Rightarrow> ('b, 'z, 's) prog" where
  "bind m f = (\<lambda>h. case m h of
                      (Returns x, h') \<Rightarrow> f x h'
                    | (Throws e, h') \<Rightarrow> (Throws e, h')
                    | (Stuck, h') \<Rightarrow> (Stuck, h'))"

text \<open>Object and array literals, property reads (\<open>v.k\<close>, \<open>v[i]\<close>), property writes
  (\<open>v.k = x\<close>) and \<open>Object.entries\<close>. Reading a property of \<open>undefined\<close> throws. A cell
  keeps its properties in the order \<open>Object.entries\<close> yields them, as the functional model
  does. The address order of the cells of a nested literal has no bearing on what is read
  back.\<close>

definition new :: "('z, 's) cell \<Rightarrow> (('z, 's) val, 'z, 's) prog" where
  "new c = (\<lambda>h. (Returns (Ref (length h)), h @ [c]))"

definition get_prop :: "('z, 's) val \<Rightarrow> string \<Rightarrow> (('z, 's) val, 'z, 's) prog" where
  "get_prop v k =
     (\<lambda>h. (case v of
              Undefined \<Rightarrow> Throws TypeError
            | Ref a \<Rightarrow>
                (if a < length h
                 then (case h ! a of
                         Obj ps \<Rightarrow> Returns (case map_of ps k of None \<Rightarrow> Undefined | Some x \<Rightarrow> x)
                       | Arr vs \<Rightarrow> Stuck)
                 else Stuck)
            | _ \<Rightarrow> Stuck, h))"

definition get_index :: "('z, 's) val \<Rightarrow> nat \<Rightarrow> (('z, 's) val, 'z, 's) prog" where
  "get_index v i =
     (\<lambda>h. (case v of
              Undefined \<Rightarrow> Throws TypeError
            | Ref a \<Rightarrow>
                (if a < length h
                 then (case h ! a of
                         Arr vs \<Rightarrow> Returns (if i < length vs then vs ! i else Undefined)
                       | Obj ps \<Rightarrow> Stuck)
                 else Stuck)
            | _ \<Rightarrow> Stuck, h))"

definition put_prop :: "('z, 's) val \<Rightarrow> string \<Rightarrow> ('z, 's) val \<Rightarrow> (unit, 'z, 's) prog" where
  "put_prop v k x =
     (\<lambda>h. case v of
             Ref a \<Rightarrow>
               (if a < length h
                then (case h ! a of
                        Obj ps \<Rightarrow> (Returns (), h[a := Obj (AList.update k x ps)])
                      | Arr vs \<Rightarrow> (Stuck, h))
                else (Stuck, h))
           | _ \<Rightarrow> (Stuck, h))"

definition Object_entries :: "('z, 's) val \<Rightarrow> ((string \<times> ('z, 's) val) list, 'z, 's) prog" where
  "Object_entries v =
     (\<lambda>h. (case v of
              Ref a \<Rightarrow>
                (if a < length h
                 then (case h ! a of Obj ps \<Rightarrow> Returns ps | Arr vs \<Rightarrow> Stuck)
                 else Stuck)
            | _ \<Rightarrow> Stuck, h))"

text \<open>\<open>Object.assign(target, source)\<close> reads the entries of the source and writes each
  to the target.\<close>

fun put_all :: "('z, 's) val \<Rightarrow> (string \<times> ('z, 's) val) list \<Rightarrow> (unit, 'z, 's) prog" where
  "put_all target [] = ret ()"
| "put_all target ((k, x) # rest) = bind (put_prop target k x) (\<lambda>_. put_all target rest)"

definition Object_assign_heap :: "('z, 's) val \<Rightarrow> ('z, 's) val \<Rightarrow> (unit, 'z, 's) prog" where
  "Object_assign_heap target source = bind (Object_entries source) (put_all target)"

text \<open>The conversion service returns a new fragment and changes nothing.\<close>

definition toJSONSchema_heap :: "('z \<Rightarrow> 's) \<Rightarrow> ('z, 's) val \<Rightarrow> (('z, 's) val, 'z, 's) prog" where
  "toJSONSchema_heap conv v = (\<lambda>h. (case v of Zod z \<Rightarrow> Returns (Fragment (conv z)) | _ \<Rightarrow> Stuck, h))"

text \<open>\<open>PROCEDURE_TYPE_HTTP_METHOD_MAP[def.type]\<close>, with the three keys of the table.\<close>

definition PROCEDURE_TYPE_HTTP_METHOD_MAP_heap :: "('z, 's) val \<Rightarrow> (('z, 's) val, 'z, 's) prog" where
  "PROCEDURE_TYPE_HTTP_METHOD_MAP_heap ty =
     (\<lambda>h. (case ty of
              Str t \<Rightarrow>
                (case map_of [(''query'', Str ''get''), (''mutation'', Str ''post''),
                              (''subscription'', Undefined)] t of
                   Some m \<Rightarrow> Returns m
                 | None \<Rightarrow> Stuck)
            | _ \<Rightarrow> Stuck, h))"

text \<open>The guard, the translator and the walker, statement by statement.\<close>

definition isProcedure_heap :: "('z, 's) val \<Rightarrow> (bool, 'z, 's) prog" where
  "isProcedure_heap maybeProcedure =
     bind (get_prop maybeProcedure ''_def'') (\<lambda>def.
     bind (get_prop def ''procedure'') (\<lambda>flag.
     ret (flag = Bool True)))"

definition getPathsForProcedure_heap ::
  "('z \<Rightarrow> 's) \<Rightarrow> string \<Rightarrow> string \<Rightarrow> ('z, 's) val \<Rightarrow> (('z, 's) val, 'z, 's) prog" where
  "getPathsForProcedure_heap conv basePath procedureName procedure =
     bind (get_prop procedure ''_def'') (\<lambda>def.
     bind (get_prop def ''type'') (\<lambda>ty.
     bind (PROCEDURE_TYPE_HTTP_METHOD_MAP_heap ty) (\<lambda>method.
     if method = Undefined then new (Obj [])
     else
       bind (new (Obj [(''operationId'', Str procedureName)])) (\<lambda>operation.
       bind (get_prop def ''inputs'') (\<lambda>ins.
       bind (get_index ins 0) (\<lambda>input0.
       bind (if input0 \<noteq> Undefined
             then
               bind (toJSONSchema_heap conv input0) (\<lambda>jsonSchema.
               bind (new (Obj [(''schema'', jsonSchema)])) (\<lambda>media.
               bind (new (Obj [(''application/json'', media)])) (\<lambda>content.
               if method = Str ''get''
               then
                 bind (new (Obj [(''name'', Str ''input''), (''in'', Str ''query''),
                                 (''content'', content)])) (\<lambda>parameter.
                 bind (new (Arr [parameter])) (\<lambda>parameters.
                 put_prop operation ''parameters'' parameters))
               else
                 bind (new (Obj [(''required'', Bool True), (''content'', content)])) (\<lambda>body.
                 put_prop operation ''requestBody'' body))))
             else ret ()) (\<lambda>_.
       bind (get_prop def ''output'') (\<lambda>out.
       bind (if out \<noteq> Undefined
             then
               bind (toJSONSchema_heap conv out) (\<lambda>outputJsonSchema.
               bind (new (Obj [(''data'', outputJsonSchema)])) (\<lambda>dataProperties.
               bind (new (Arr [Str ''data''])) (\<lambda>dataRequired.
               bind (new (Obj [(''type'', Str ''object''), (''properties'', dataProperties),
                               (''required'', dataRequired)])) (\<lambda>result.
               bind (new (Obj [(''result'', result)])) (\<lambda>resultProperties.
               bind (new (Arr [Str ''result''])) (\<lambda>resultRequired.
               bind (new (Obj [(''type'', Str ''object''), (''properties'', resultProperties),
                               (''required'', resultRequired)])) (\<lambda>responseSchema.
               bind (new (Obj [(''schema'', responseSchema)])) (\<lambda>media.
               bind (new (Obj [(''application/json'', media)])) (\<lambda>content.
               bind (new (Obj [(''description'', Str ''Successful response''),
                               (''content'', content)])) (\<lambda>ok.
               bind (new (Obj [(''200'', ok)])) (\<lambda>responses.
               put_prop operation ''responses'' responses)))))))))))
             else
               bind (new (Obj [(''description'', Str ''Successful response'')])) (\<lambda>ok.
               bind (new (Obj [(''200'', ok)])) (\<lambda>responses.
               put_prop operation ''responses'' responses))) (\<lambda>_.
       bind (case method of Str m \<Rightarrow> new (Obj [(m, operation)]) | _ \<Rightarrow> (\<lambda>h. (Stuck, h))) (\<lambda>item.
       new (Obj [(basePath @ ''/'' @ procedureName, item)])))))))))))"

fun getPathsForRouterRecord_heap ::
      "nat \<Rightarrow> ('z \<Rightarrow> 's) \<Rightarrow> string \<Rightarrow> ('z, 's) val \<Rightarrow> (('z, 's) val, 'z, 's) prog"
  and forEntries_heap ::
      "nat \<Rightarrow> ('z \<Rightarrow> 's) \<Rightarrow> string \<Rightarrow> (string \<times> ('z, 's) val) list \<Rightarrow> ('z, 's) val \<Rightarrow>
         (unit, 'z, 's) prog"
where
  "getPathsForRouterRecord_heap 0 conv basePath routerRecord = (\<lambda>h. (Stuck, h))"
| "getPathsForRouterRecord_heap (Suc fuel) conv basePath routerRecord =
     bind (new (Obj [])) (\<lambda>paths.
     bind (Object_entries routerRecord) (\<lambda>entries.
     bind (forEntries_heap fuel conv basePath entries paths) (\<lambda>_.
     ret paths)))"
| "forEntries_heap fuel conv basePath [] paths = ret ()"
| "forEntries_heap fuel conv basePath ((procedureName, procedureOrRouterRecord) # rest) paths =
     bind (isProcedure_heap procedureOrRouterRecord) (\<lambda>answer.
     bind (if answer
           then getPathsForProcedure_heap conv basePath procedureName procedureOrRouterRecord
           else getPathsForRouterRecord_heap fuel conv basePath procedureOrRouterRecord) (\<lambda>fragment.
     bind (Object_assign_heap paths fragment) (\<lambda>_.
     forEntries_heap fuel conv basePath rest paths)))"

section \<open>The document\<close>

text \<open>
  The argument of the entry point. In the functional model \<open>router\<close> stands for
  \<open>router._def.procedures\<close>, the record the walker is given; in the heap model below it
  is the router object itself.
\<close>

record 'r options =
  apiTitle :: string
  apiVersion :: string
  basePath :: string
  router :: 'r

definition trpc2OpenApi :: "('z \<Rightarrow> 's) \<Rightarrow> 'z router_record options \<Rightarrow> error + 's json" where
  "trpc2OpenApi toJSONSchema opts =
     (case getPathsForRouterRecord toJSONSchema (basePath opts) (router opts) of
        Inl err \<Rightarrow> Inl err
      | Inr paths \<Rightarrow>
          Inr (JObject
                 [(''openapi'', JString ''3.1.0''),
                  (''info'', JObject [(''title'', JString (apiTitle opts)),
                                       (''version'', JString (apiVersion opts))]),
                  (''paths'', JObject paths),
                  (''components'', JObject [])]))"

text \<open>The entry point on the heap: the property values of the returned object literal are
  evaluated in the order they are written.\<close>

definition trpc2OpenApi_heap ::
  "nat \<Rightarrow> ('z \<Rightarrow> 's) \<Rightarrow> ('z, 's) val options \<Rightarrow> (('z, 's) val, 'z, 's) prog" where
  "trpc2OpenApi_heap fuel conv opts =
     bind (new (Obj [(''title'', Str (apiTitle opts)), (''version'', Str (apiVersion opts))])) (\<lambda>info.
     bind (get_prop (router opts) ''_def'') (\<lambda>def.
     bind (get_prop def ''procedures'') (\<lambda>routerRecord.
     bind (getPathsForRouterRecord_heap fuel conv (basePath opts) routerRecord) (\<lambda>paths.
     bind (new (Obj [])) (\<lambda>components.
     new (Obj [(''openapi'', Str ''3.1.0''), (''info'', info), (''paths'', paths),
               (''components'', components)]))))))"

section \<open>What a walk visits\<close>

text \<open>
  Three functions of the tree that the statements below are written with: the leaf
  procedures in the order the walk reaches them, whether every guard of the walk answers,
  and the route fragments the translator returns for the leaves, in that order.
\<close>

fun leaves :: "'z router_record \<Rightarrow> (string \<times> 'z procedure_def) list" where
  "leaves [] = []"
| "leaves ((n, AnyProcedure p) # rest) = (n, p) # leaves rest"
| "leaves ((n, RouterRecord r) # rest) = leaves r @ leaves rest"

fun guards_answer :: "'z router_record \<Rightarrow> bool" where
  "guards_answer [] = True"
| "guards_answer ((n, AnyProcedure p) # rest) = guards_answer rest"
| "guards_answer ((n, RouterRecord r) # rest) =
     (map_of r ''_def'' \<noteq> None \<and> guards_answer r \<and> guards_answer rest)"

definition fragments ::
  "('z \<Rightarrow> 's) \<Rightarrow> string \<Rightarrow> (string \<times> 'z procedure_def) list \<Rightarrow> 's obj" where
  "fragments toJSONSchema b ls =
     concat (map (\<lambda>(n, p). getPathsForProcedure toJSONSchema b n p) ls)"

text \<open>The full-route strings a walk writes, in the order it writes them.\<close>

definition routes :: "string \<Rightarrow> 'z router_record \<Rightarrow> string list" where
  "routes b r =
     map (\<lambda>(n, p). b @ ''/'' @ n) (filter (\<lambda>(n, p). type p \<noteq> Subscription) (leaves r))"

section \<open>Heaps that hold a tree, and documents read back from a heap\<close>

text \<open>
  \<open>reifies lo h v j\<close>: the value \<open>v\<close> in heap \<open>h\<close> is the JSON value \<open>j\<close>, and every
  cell it is read from has an address from \<open>lo\<close> on. \<open>rep_entry lo h v e\<close>: the value \<open>v\<close>
  is the entry \<open>e\<close> of a procedure tree, laid out in cells below \<open>lo\<close> with the
  properties the source's types declare. \<open>represents h v r\<close>: \<open>v\<close> is a router object
  whose \<open>_def.procedures\<close> is the tree \<open>r\<close>. \<open>depth\<close> bounds the nesting, for the fuel.
\<close>

inductive reifies :: "nat \<Rightarrow> ('z, 's) heap \<Rightarrow> ('z, 's) val \<Rightarrow> 's json \<Rightarrow> bool" where
  Str: "reifies lo h (Str s) (JString s)"
| Bool: "reifies lo h (Bool b) (JBool b)"
| Fragment: "reifies lo h (Fragment s) (Schema s)"
| Obj: "lo \<le> a \<Longrightarrow> a < length h \<Longrightarrow> h ! a = Obj ps \<Longrightarrow>
        list_all2 (\<lambda>p q. fst p = fst q \<and> reifies lo h (snd p) (snd q)) ps js \<Longrightarrow>
        reifies lo h (Ref a) (JObject js)"
| Arr: "lo \<le> a \<Longrightarrow> a < length h \<Longrightarrow> h ! a = Arr vs \<Longrightarrow>
        list_all2 (reifies lo h) vs js \<Longrightarrow>
        reifies lo h (Ref a) (JArray js)"

text \<open>The string a procedure kind is written as in \<open>_def.type\<close>.\<close>

definition type_name :: "procedure_type \<Rightarrow> string" where
  "type_name t = (case t of Query \<Rightarrow> ''query'' | Mutation \<Rightarrow> ''mutation''
                  | Subscription \<Rightarrow> ''subscription'')"

definition rep_procedure ::
  "nat \<Rightarrow> ('z, 's) heap \<Rightarrow> ('z, 's) val \<Rightarrow> 'z procedure_def \<Rightarrow> bool" where
  "rep_procedure lo h v p \<longleftrightarrow>
     (\<exists>a d ia dps.
        v = Ref a \<and> a < lo \<and> d < lo \<and> ia < lo \<and>
        h ! a = Obj [(''_def'', Ref d)] \<and>
        h ! d = Obj dps \<and>
        map_of dps ''procedure'' = Some (Bool True) \<and>
        map_of dps ''type'' = Some (Str (type_name (type p))) \<and>
        map_of dps ''inputs'' = Some (Ref ia) \<and>
        h ! ia = Arr (map Zod (inputs p)) \<and>
        (case map_of dps ''output'' of None \<Rightarrow> Undefined | Some x \<Rightarrow> x) =
          (case outputType p of None \<Rightarrow> Undefined | Some z \<Rightarrow> Zod z))"

fun rep_entry :: "nat \<Rightarrow> ('z, 's) heap \<Rightarrow> ('z, 's) val \<Rightarrow> 'z entry \<Rightarrow> bool"
  and rep_entries ::
    "nat \<Rightarrow> ('z, 's) heap \<Rightarrow> (string \<times> ('z, 's) val) list \<Rightarrow> 'z router_record \<Rightarrow> bool"
where
  "rep_entry lo h v (AnyProcedure p) = rep_procedure lo h v p"
| "rep_entry lo h v (RouterRecord r) =
     (\<exists>a ps. v = Ref a \<and> a < lo \<and> h ! a = Obj ps \<and> rep_entries lo h ps r)"
| "rep_entries lo h [] [] = True"
| "rep_entries lo h ((k, v) # ps) ((n, e) # r) =
     (k = n \<and> rep_entry lo h v e \<and> rep_entries lo h ps r)"
| "rep_entries lo h [] (x # r) = False"
| "rep_entries lo h (x # ps) [] = False"

fun depth :: "'z router_record \<Rightarrow> nat" where
  "depth [] = 1"
| "depth ((n, AnyProcedure p) # rest) = depth rest"
| "depth ((n, RouterRecord r) # rest) = max (Suc (depth r)) (depth rest)"

definition item_rel ::
  "nat \<Rightarrow> ('z, 's) heap \<Rightarrow> string \<times> ('z, 's) val \<Rightarrow> string \<times> 's json \<Rightarrow> bool" where
  "item_rel lo h p q \<longleftrightarrow> fst p = fst q \<and> reifies lo h (snd p) (snd q)"

text \<open>What a fragment computation and a run of the loop leave behind, relative to the
  functional model: the heap grows at its end (the loop also rewrites the cell of \<open>paths\<close>),
  an exception is the same exception, and the returned object reads back as the result.\<close>

definition walk_post ::
  "('z, 's) heap \<Rightarrow> ('z, 's) val outcome \<times> ('z, 's) heap \<Rightarrow> error + 's obj \<Rightarrow> bool" where
  "walk_post h res expected \<longleftrightarrow>
     (\<exists>cells. snd res = h @ cells) \<and>
     (case expected of
        Inl e \<Rightarrow> fst res = Throws e
      | Inr paths \<Rightarrow>
          (\<exists>a cur. fst res = Returns (Ref a) \<and> length h \<le> a \<and> a < length (snd res) \<and>
                    snd res ! a = Obj cur \<and>
                    list_all2 (item_rel (length h) (snd res)) cur paths))"

definition loop_post ::
  "addr \<Rightarrow> ('z, 's) heap \<Rightarrow> unit outcome \<times> ('z, 's) heap \<Rightarrow> error + 's obj \<Rightarrow> bool" where
  "loop_post pa h res expected \<longleftrightarrow>
     (\<exists>cells cur'.
        snd res = h[pa := Obj cur'] @ cells \<and>
        (case expected of
           Inl e \<Rightarrow> fst res = Throws e
         | Inr acc' \<Rightarrow> fst res = Returns () \<and>
                      list_all2 (item_rel (Suc pa) (snd res)) cur' acc'))"

definition represents :: "('z, 's) heap \<Rightarrow> ('z, 's) val \<Rightarrow> 'z router_record \<Rightarrow> bool" where
  "represents h v r \<longleftrightarrow>
     (\<exists>a aps d dps x ps.
        v = Ref a \<and> a < length h \<and> h ! a = Obj aps \<and> map_of aps ''_def'' = Some (Ref d) \<and>
        d < length h \<and> h ! d = Obj dps \<and> map_of dps ''procedures'' = Some (Ref x) \<and>
        x < length h \<and> h ! x = Obj ps \<and> rep_entries (length h) h ps r)"

definition agrees ::
  "nat \<Rightarrow> ('z, 's) val outcome \<times> ('z, 's) heap \<Rightarrow> error + 's json \<Rightarrow> bool" where
  "agrees lo res expected \<longleftrightarrow>
     (case expected of
        Inl e \<Rightarrow> fst res = Throws e
      | Inr doc \<Rightarrow> (\<exists>v. fst res = Returns v \<and> reifies lo (snd res) v doc))"


text \<open>A tree with one query, and two heaps that hold a router with this tree at different
  addresses and with the properties written in different orders.\<close>

definition health_tree :: "nat router_record" where
  "health_tree = [(''health'', AnyProcedure \<lparr>type = Query, inputs = [], outputType = None\<rparr>)]"

definition health_heap :: "(nat, nat) heap" where
  "health_heap =
     [Arr [],
      Obj [(''procedure'', Bool True), (''type'', Str ''query''), (''inputs'', Ref 0)],
      Obj [(''_def'', Ref 1)],
      Obj [(''health'', Ref 2)],
      Obj [(''procedures'', Ref 3)],
      Obj [(''_def'', Ref 4)]]"

definition health_heap_shifted :: "(nat, nat) heap" where
  "health_heap_shifted =
     [Obj [(''unrelated'', Str ''cell'')],
      Obj [(''_def'', Ref 5)],
      Obj [(''health'', Ref 3)],
      Obj [(''_def'', Ref 4)],
      Obj [(''type'', Str ''query''), (''inputs'', Ref 6), (''procedure'', Bool True)],
      Obj [(''procedures'', Ref 2)],
      Arr []]"

text \<open>A heap with the record \<open>{ hello: query }\<close> at address 3 and the record
  \<open>{ group: { hello: query } }\<close> at address 4.\<close>

definition nested_heap :: "(nat, nat) heap" where
  "nested_heap =
     [Arr [],
      Obj [(''procedure'', Bool True), (''type'', Str ''query''), (''inputs'', Ref 0)],
      Obj [(''_def'', Ref 1)],
      Obj [(''hello'', Ref 2)],
      Obj [(''group'', Ref 3)]]"

section \<open>Objects: property order, keys and lookups\<close>

lemma update_swap_present:
  "k \<in> fst ` set s \<Longrightarrow> k \<noteq> k' \<Longrightarrow>
     AList.update k v (AList.update k' v' s) = AList.update k' v' (AList.update k v s)"
  by (induction s) auto

lemma Object_assign_Nil [simp]: "Object_assign t [] = t"
  by (simp add: Object_assign_def)

lemma Object_assign_Cons [simp]:
  "Object_assign t ((k, v) # xs) = Object_assign (set_property t k v) xs"
  by (simp add: Object_assign_def)

lemma Object_assign_append [simp]:
  "Object_assign t (xs @ ys) = Object_assign (Object_assign t xs) ys"
  by (simp add: Object_assign_def)

lemma keys_set_property [simp]:
  "fst ` set (set_property obj k v) = insert k (fst ` set obj)"
  by (simp add: set_property_def AList.dom_update)

lemma keys_Object_assign [simp]:
  "fst ` set (Object_assign t xs) = fst ` set t \<union> fst ` set xs"
proof (induction xs arbitrary: t)
  case Nil
  then show ?case by simp
next
  case (Cons x xs)
  obtain k v where x: "x = (k, v)" by (cases x)
  have "fst ` set (Object_assign t (x # xs)) = insert k (fst ` set t) \<union> fst ` set xs"
    by (simp add: x Cons.IH)
  then show ?case by (simp add: x)
qed

lemma distinct_set_property:
  "distinct (map fst obj) \<Longrightarrow> distinct (map fst (set_property obj k v))"
  by (simp add: set_property_def AList.distinct_update)


lemma map_of_set_property [simp]:
  "map_of (set_property obj k v) = (map_of obj)(k \<mapsto> v)"
  by (simp add: set_property_def AList.update_conv')

lemma map_of_Object_assign:
  "map_of (Object_assign t xs) = map_of t ++ map_of (rev xs)"
  by (induction xs arbitrary: t) (auto simp: map_add_upd_left)

lemma set_property_past_assign:
  "k \<in> fst ` set s \<Longrightarrow> k \<notin> fst ` set a \<Longrightarrow>
     set_property (Object_assign s a) k v = Object_assign (set_property s k v) a"
proof (induction a arbitrary: s)
  case Nil
  then show ?case by simp
next
  case (Cons x a)
  obtain k' v' where x: "x = (k', v')" by (cases x)
  from Cons.prems x have ne: "k \<noteq> k'" and notin: "k \<notin> fst ` set a" by auto
  have "set_property (Object_assign s (x # a)) k v
        = set_property (Object_assign (set_property s k' v') a) k v"
    by (simp add: x)
  also have "\<dots> = Object_assign (set_property (set_property s k' v') k v) a"
    using Cons.prems(1) notin by (intro Cons.IH) auto
  also have "set_property (set_property s k' v') k v = set_property (set_property s k v) k' v'"
    unfolding set_property_def using Cons.prems(1) ne by (rule update_swap_present)
  finally show ?case by (simp add: x)
qed

lemma Object_assign_set_property:
  "distinct (map fst a) \<Longrightarrow>
     Object_assign t (set_property a k v) = set_property (Object_assign t a) k v"
proof (induction a arbitrary: t)
  case Nil
  then show ?case by (simp add: set_property_def)
next
  case (Cons x a)
  obtain k' v' where x: "x = (k', v')" by (cases x)
  show ?case
  proof (cases "k' = k")
    case True
    with Cons.prems x have notin: "k \<notin> fst ` set a" by (auto simp: image_iff)
    have "Object_assign t (set_property (x # a) k v) = Object_assign (set_property t k v) a"
      by (simp add: x True set_property_def)
    also have "set_property t k v = set_property (set_property t k v') k v"
      by (simp add: set_property_def)
    also have "Object_assign \<dots> a = set_property (Object_assign (set_property t k v') a) k v"
      using notin by (intro set_property_past_assign [symmetric]) auto
    finally show ?thesis by (simp add: x True)
  next
    case False
    have "Object_assign t (set_property (x # a) k v)
          = Object_assign (set_property t k' v') (set_property a k v)"
      using False by (simp add: x set_property_def)
    also have "\<dots> = set_property (Object_assign (set_property t k' v') a) k v"
      using Cons.prems by (intro Cons.IH) simp
    finally show ?thesis by (simp add: x)
  qed
qed

lemma Object_assign_assoc:
  "distinct (map fst a) \<Longrightarrow>
     Object_assign t (Object_assign a xs) = Object_assign (Object_assign t a) xs"
proof (induction xs arbitrary: a)
  case Nil
  then show ?case by simp
next
  case (Cons x xs)
  obtain k v where x: "x = (k, v)" by (cases x)
  have "Object_assign t (Object_assign a (x # xs))
        = Object_assign t (Object_assign (set_property a k v) xs)"
    by (simp add: x)
  also have "\<dots> = Object_assign (Object_assign t (set_property a k v)) xs"
    using Cons.prems by (intro Cons.IH) (rule distinct_set_property)
  also have "Object_assign t (set_property a k v) = set_property (Object_assign t a) k v"
    using Cons.prems by (rule Object_assign_set_property)
  finally show ?case by (simp add: x)
qed

lemma Object_assign_fresh: "Object_assign t (Object_assign [] xs) = Object_assign t xs"
  using Object_assign_assoc [of "[]" t xs] by simp

section \<open>The walk in closed form\<close>

text \<open>When the guard answers, its answer is the constructor of the entry.\<close>

lemma isProcedure_sound: "isProcedure e = Inr answer \<Longrightarrow> answer = (\<exists>p. e = AnyProcedure p)"
  by (cases e) (auto split: option.splits)

text \<open>
  A walk throws exactly when some nested record it reaches has no entry named \<open>_def\<close>;
  otherwise it returns the fragments of the leaves, assigned in order to an empty object.
\<close>

lemma walk_char:
  fixes conv :: "'z \<Rightarrow> 's"
  shows "getPathsForRouterRecord conv b r =
           (if guards_answer r then Inr (Object_assign [] (fragments conv b (leaves r)))
            else Inl TypeError)"
    and "forEntries conv b r paths =
           (if guards_answer r then Inr (Object_assign paths (fragments conv b (leaves r)))
            else Inl TypeError)"
proof (induction conv b r and conv b r paths rule: getPathsForRouterRecord_forEntries.induct)
  case (1 toJSONSchema basePath routerRecord)
  then show ?case by simp
next
  case (2 toJSONSchema basePath paths)
  then show ?case by (simp add: fragments_def)
next
  case (3 toJSONSchema basePath procedureName e rest paths)
  show ?case
  proof (cases e)
    case (AnyProcedure p)
    show ?thesis
      using "3.IH"(1) [OF _ AnyProcedure] AnyProcedure
      by (simp add: fragments_def)
  next
    case (RouterRecord r)
    show ?thesis
    proof (cases "map_of r ''_def''")
      case None
      then show ?thesis using RouterRecord by simp
    next
      case (Some v)
      then have ans: "isProcedure e = Inr False" using RouterRecord by simp
      show ?thesis
      proof (cases "guards_answer r")
        case False
        then show ?thesis
          using "3.IH"(2) [OF ans RouterRecord] RouterRecord Some by simp
      next
        case True
        have sub: "getPathsForRouterRecord toJSONSchema basePath r =
                     Inr (Object_assign [] (fragments toJSONSchema basePath (leaves r)))"
          using "3.IH"(2) [OF ans RouterRecord] True by simp
        show ?thesis
          using "3.IH"(3) [OF ans RouterRecord sub] RouterRecord Some True sub
          by (simp add: fragments_def Object_assign_fresh)
      qed
    qed
  qed
qed

lemma walk_Inr_iff:
  "getPathsForRouterRecord conv b r = Inr paths \<longleftrightarrow>
     guards_answer r \<and> paths = Object_assign [] (fragments conv b (leaves r))"
  unfolding walk_char(1) by auto

lemma walk_Inl_iff:
  "getPathsForRouterRecord conv b r = Inl err \<longleftrightarrow> \<not> guards_answer r"
  unfolding walk_char(1) by (cases err) auto

section \<open>The translator's fragment\<close>

lemma method_cases:
  "PROCEDURE_TYPE_HTTP_METHOD_MAP t = Some m \<longleftrightarrow>
     (t = Query \<and> m = ''get'') \<or> (t = Mutation \<and> m = ''post'')"
  by (cases t) (auto simp: PROCEDURE_TYPE_HTTP_METHOD_MAP_def)

lemma method_None: "PROCEDURE_TYPE_HTTP_METHOD_MAP t = None \<longleftrightarrow> t = Subscription"
  by (cases t) (auto simp: PROCEDURE_TYPE_HTTP_METHOD_MAP_def)

lemma translate_stream:
  "type p = Subscription \<Longrightarrow> getPathsForProcedure conv b n p = []"
  by (simp add: getPathsForProcedure_def PROCEDURE_TYPE_HTTP_METHOD_MAP_def)

lemma translate_shape:
  assumes "type p \<noteq> Subscription"
  shows "\<exists>operation. getPathsForProcedure conv b n p =
           [(b @ ''/'' @ n,
             JObject [(if type p = Query then ''get'' else ''post'', JObject operation)])]"
  using assms
  by (cases "type p") (simp_all add: getPathsForProcedure_def PROCEDURE_TYPE_HTTP_METHOD_MAP_def Let_def)

lemma translate_keys:
  "map fst (getPathsForProcedure conv b n p) =
     (if type p = Subscription then [] else [b @ ''/'' @ n])"
  using translate_shape [of p conv b n] translate_stream [of p conv b n] by auto

lemma fragments_Nil [simp]: "fragments conv b [] = []"
  by (simp add: fragments_def)

lemma fragments_Cons [simp]:
  "fragments conv b ((n, p) # ls) = getPathsForProcedure conv b n p @ fragments conv b ls"
  by (simp add: fragments_def)

lemma fragments_append [simp]:
  "fragments conv b (xs @ ys) = fragments conv b xs @ fragments conv b ys"
  by (simp add: fragments_def)

lemma fragments_keys:
  "map fst (fragments conv b ls) =
     map (\<lambda>(n, p). b @ ''/'' @ n) (filter (\<lambda>(n, p). type p \<noteq> Subscription) ls)"
  by (induction ls) (auto simp: translate_keys)

lemma walk_keys:
  assumes "getPathsForRouterRecord conv b r = Inr paths"
  shows "fst ` set paths =
           (\<lambda>(n, p). b @ ''/'' @ n) ` {(n, p). (n, p) \<in> set (leaves r) \<and> type p \<noteq> Subscription}"
proof -
  from assms have "paths = Object_assign [] (fragments conv b (leaves r))"
    by (simp only: walk_Inr_iff)
  then have "fst ` set paths = set (map fst (fragments conv b (leaves r)))"
    by simp
  also have "\<dots> = (\<lambda>(n, p). b @ ''/'' @ n) ` {(n, p). (n, p) \<in> set (leaves r) \<and> type p \<noteq> Subscription}"
    unfolding fragments_keys by auto
  finally show ?thesis .
qed

section \<open>Leaves, reordering and collisions\<close>

lemma leaves_append [simp]: "leaves (xs @ ys) = leaves xs @ leaves ys"
  by (induction xs rule: leaves.induct) auto

lemma leaves_concat: "leaves r = concat (map (\<lambda>x. leaves [x]) r)"
  by (induction r rule: leaves.induct) auto

lemma guards_answer_append [simp]:
  "guards_answer (xs @ ys) \<longleftrightarrow> guards_answer xs \<and> guards_answer ys"
  by (induction xs rule: guards_answer.induct) auto

lemma guards_answer_all: "guards_answer r \<longleftrightarrow> (\<forall>x \<in> set r. guards_answer [x])"
  by (induction r rule: guards_answer.induct) auto

lemma mset_leaves_perm:
  assumes "mset r' = mset r"
  shows "mset (leaves r') = mset (leaves r)"
proof -
  have *: "mset (leaves s) = sum_mset (image_mset (\<lambda>x. mset (leaves [x])) (mset s))" for s :: "'a router_record"
  proof -
    have "mset (leaves s) = sum_list (map (\<lambda>x. mset (leaves [x])) s)"
      by (subst leaves_concat) (simp add: mset_concat comp_def)
    also have "\<dots> = sum_mset (mset (map (\<lambda>x. mset (leaves [x])) s))"
      by (simp only: sum_mset_sum_list)
    finally show ?thesis by simp
  qed
  show ?thesis by (simp only: * [of r] * [of r'] assms)
qed

lemma mset_fragments_perm:
  assumes "mset ls' = mset ls"
  shows "mset (fragments conv b ls') = mset (fragments conv b ls)"
proof -
  have *: "mset (fragments conv b s) =
          sum_mset (image_mset (\<lambda>(n, p). mset (getPathsForProcedure conv b n p)) (mset s))"
    for s :: "(string \<times> 'a procedure_def) list"
  proof -
    have "mset (fragments conv b s) =
            sum_list (map (\<lambda>(n, p). mset (getPathsForProcedure conv b n p)) s)"
      by (simp add: fragments_def mset_concat comp_def split_def)
    also have "\<dots> = sum_mset (mset (map (\<lambda>(n, p). mset (getPathsForProcedure conv b n p)) s))"
      by (simp only: sum_mset_sum_list)
    finally show ?thesis by simp
  qed
  show ?thesis by (simp only: * [of ls] * [of ls'] assms)
qed

lemma routes_fragments: "routes b r = map fst (fragments conv b (leaves r))"
  by (simp add: routes_def fragments_keys)

lemma map_of_walk:
  assumes "getPathsForRouterRecord conv b r = Inr paths"
  shows "map_of paths = map_of (rev (fragments conv b (leaves r)))"
  using assms by (simp only: walk_Inr_iff) (simp add: map_of_Object_assign)

lemma walk_same_leaves:
  assumes g: "guards_answer r' = guards_answer r"
    and perm: "mset (leaves r') = mset (leaves r)"
    and dist: "distinct (routes b r)"
  shows "map_sum id map_of (getPathsForRouterRecord conv b r') =
         map_sum id map_of (getPathsForRouterRecord conv b r)"
proof -
  let ?F = "fragments conv b (leaves r)" and ?F' = "fragments conv b (leaves r')"
  have m: "mset ?F' = mset ?F"
    by (intro mset_fragments_perm perm)
  from dist have d: "distinct (map fst ?F)" by (simp add: routes_fragments [of b r conv])
  have "mset (map fst ?F') = mset (map fst ?F)"
    using arg_cong [OF m, of "image_mset fst"] by simp
  then have "distinct (map fst ?F') = distinct (map fst ?F)"
    by (rule mset_eq_imp_distinct_iff)
  with d have d': "distinct (map fst ?F')" by simp
  have s: "set (rev ?F') = set (rev ?F)" using mset_eq_setD [OF m] by simp
  have "distinct (map fst (rev ?F'))" "distinct (map fst (rev ?F))"
    using d d' by (simp_all add: rev_map [symmetric])
  then have "map_of (rev ?F') = map_of (rev ?F)"
    using s by (simp only: map_of_inject_set)
  then show ?thesis
    unfolding walk_char(1) g by (simp add: map_of_Object_assign)
qed

lemma guards_answer_perm: "mset r' = mset r \<Longrightarrow> guards_answer r' = guards_answer r"
  using mset_eq_setD [of r' r] by (simp add: guards_answer_all [of r] guards_answer_all [of r'])

lemma fragments_absent:
  assumes "\<forall>(n', p') \<in> set ys. n' = n \<longrightarrow> type p' = Subscription"
  shows "b @ ''/'' @ n \<notin> fst ` set (fragments conv b ys)"
proof -
  have "fst ` set (fragments conv b ys) = set (map fst (fragments conv b ys))" by simp
  also have "\<dots> = (\<lambda>(n, p). b @ ''/'' @ n) ` {(n, p). (n, p) \<in> set ys \<and> type p \<noteq> Subscription}"
    unfolding fragments_keys by auto
  finally show ?thesis using assms by auto
qed

lemma last_write_wins:
  assumes walk: "getPathsForRouterRecord conv b r = Inr paths"
    and split: "leaves r = xs @ (n, p) # ys"
    and emitted: "type p \<noteq> Subscription"
    and later: "\<forall>(n', p') \<in> set ys. n' = n \<longrightarrow> type p' = Subscription"
  shows "\<exists>item. getPathsForProcedure conv b n p = [(b @ ''/'' @ n, item)] \<and>
                map_of paths (b @ ''/'' @ n) = Some item"
proof -
  from translate_shape [OF emitted, of conv b n]
  obtain item where item: "getPathsForProcedure conv b n p = [(b @ ''/'' @ n, item)]" by blast
  have "map_of (rev (fragments conv b ys)) (b @ ''/'' @ n) = None"
    using fragments_absent [OF later, of b conv] by (simp add: map_of_eq_None_iff)
  then have "map_of paths (b @ ''/'' @ n) = Some item"
    unfolding map_of_walk [OF walk] split by (simp add: item map_add_def)
  with item show ?thesis by blast
qed




lemma leaves_flat [simp]: "leaves (map (\<lambda>(n, p). (n, AnyProcedure p)) ls) = ls"
  by (induction ls) auto

lemma guards_answer_flat [simp]: "guards_answer (map (\<lambda>(n, p). (n, AnyProcedure p)) ls)"
  by (induction ls) auto

lemma nested_equals_flat:
  "guards_answer r \<Longrightarrow>
     getPathsForRouterRecord conv b r =
     getPathsForRouterRecord conv b (map (\<lambda>(n, p). (n, AnyProcedure p)) (leaves r))"
  unfolding walk_char(1) by simp

section \<open>The heap model refines the functional model\<close>

lemma reifies_mono_heap:
  assumes "reifies lo h v j" and "length h \<le> length h'"
    and "\<And>a. lo \<le> a \<Longrightarrow> a < length h \<Longrightarrow> h' ! a = h ! a"
  shows "reifies lo h' v j"
  using assms
proof (induction rule: reifies.induct)
  case (Obj lo a h ps js)
  have "list_all2 (\<lambda>p q. fst p = fst q \<and> reifies lo h' (snd p) (snd q)) ps js"
    using Obj.IH Obj.prems by (auto elim!: list_all2_mono)
  moreover have "h' ! a = Obj ps" "a < length h'"
    using Obj.hyps Obj.prems by auto
  ultimately show ?case using Obj.hyps(1) by (intro reifies.Obj)
next
  case (Arr lo a h vs js)
  have "list_all2 (reifies lo h') vs js"
    using Arr.IH Arr.prems by (auto elim!: list_all2_mono)
  moreover have "h' ! a = Arr vs" "a < length h'"
    using Arr.hyps Arr.prems by auto
  ultimately show ?case using Arr.hyps(1) by (intro reifies.Arr)
qed (auto intro: reifies.intros)

lemma reifies_extend: "reifies lo h v j \<Longrightarrow> reifies lo (h @ cs) v j"
  by (erule reifies_mono_heap) (auto simp: nth_append)

lemma reifies_update_below: "reifies lo h v j \<Longrightarrow> pa < lo \<Longrightarrow> reifies lo (h[pa := c]) v j"
  by (erule reifies_mono_heap) auto

lemma reifies_lower: "reifies lo h v j \<Longrightarrow> lo' \<le> lo \<Longrightarrow> reifies lo' h v j"
proof (induction rule: reifies.induct)
  case (Obj lo a h ps js)
  have "list_all2 (\<lambda>p q. fst p = fst q \<and> reifies lo' h (snd p) (snd q)) ps js"
    using Obj.IH Obj.prems by (auto elim!: list_all2_mono)
  then show ?case using Obj.hyps Obj.prems by (intro reifies.Obj) auto
next
  case (Arr lo a h vs js)
  have "list_all2 (reifies lo' h) vs js"
    using Arr.IH Arr.prems by (auto elim!: list_all2_mono)
  then show ?case using Arr.hyps Arr.prems by (intro reifies.Arr) auto
qed (auto intro: reifies.intros)

lemma rep_procedure_agree:
  assumes "rep_procedure lo h v p" and "\<And>a. a < lo \<Longrightarrow> h' ! a = h ! a"
  shows "rep_procedure lo h' v p"
  using assms unfolding rep_procedure_def by (metis (no_types, lifting))

lemma rep_agree:
  fixes h h' :: "('z, 's) heap"
  shows "rep_entry lo h v e \<Longrightarrow> (\<forall>a < lo. h' ! a = h ! a) \<Longrightarrow> rep_entry lo h' v e"
    and "rep_entries lo h ps r \<Longrightarrow> (\<forall>a < lo. h' ! a = h ! a) \<Longrightarrow> rep_entries lo h' ps r"
proof (induction lo h v e and lo h ps r rule: rep_entry_rep_entries.induct)
  case (1 lo h v p)
  then show ?case using rep_procedure_agree [of lo h v p h'] by simp
next
  case (2 lo h v r)
  then show ?case by auto
qed auto

lemma item_rel_pair [simp]:
  "item_rel lo h (k, v) (k', j) \<longleftrightarrow> k = k' \<and> reifies lo h v j"
  by (simp add: item_rel_def)

inductive_simps reifies_Object: "reifies lo h (Ref a) (JObject js)"
inductive_simps reifies_Array: "reifies lo h (Ref a) (JArray js)"
inductive_simps reifies_Str: "reifies lo h (Str s) j"
inductive_simps reifies_Bool: "reifies lo h (Bool b) j"
inductive_simps reifies_Fragment: "reifies lo h (Fragment s) j"

lemmas prog_defs = ret_def bind_def new_def get_prop_def get_index_def put_prop_def
  Object_entries_def toJSONSchema_heap_def PROCEDURE_TYPE_HTTP_METHOD_MAP_heap_def

lemma put_all_eval:
  "pa < length h \<Longrightarrow> h ! pa = Obj cur \<Longrightarrow>
     put_all (Ref pa) xs h =
       (Returns (), h[pa := Obj (fold (\<lambda>(k, x). AList.update k x) xs cur)])"
proof (induction xs arbitrary: h cur)
  case Nil
  then show ?case by (simp add: ret_def list_update_same_conv [THEN iffD2])
next
  case (Cons kx xs)
  obtain k x where kx: "kx = (k, x)" by (cases kx)
  let ?h1 = "h[pa := Obj (AList.update k x cur)]"
  have step: "put_prop (Ref pa) k x h = (Returns (), ?h1)"
    using Cons.prems by (simp add: put_prop_def)
  have "put_all (Ref pa) xs ?h1 =
          (Returns (), ?h1[pa := Obj (fold (\<lambda>(k, x). AList.update k x) xs (AList.update k x cur))])"
    using Cons.prems by (intro Cons.IH) simp_all
  then show ?case using step by (simp add: kx bind_def)
qed

lemma Object_assign_heap_eval:
  "pa < length h \<Longrightarrow> fa < length h \<Longrightarrow> h ! pa = Obj cur \<Longrightarrow> h ! fa = Obj fps \<Longrightarrow>
     Object_assign_heap (Ref pa) (Ref fa) h =
       (Returns (), h[pa := Obj (fold (\<lambda>(k, x). AList.update k x) fps cur)])"
  by (simp add: Object_assign_heap_def bind_def Object_entries_def put_all_eval)

lemma item_rel_update:
  "list_all2 (item_rel lo h) ps js \<Longrightarrow> reifies lo h v j \<Longrightarrow>
     list_all2 (item_rel lo h) (AList.update k v ps) (AList.update k j js)"
proof (induction rule: list_all2_induct)
  case Nil
  then show ?case by simp
next
  case (Cons p ps q qs)
  obtain k1 v1 where p: "p = (k1, v1)" by (cases p)
  obtain k2 j2 where q: "q = (k2, j2)" by (cases q)
  from Cons show ?case by (simp add: p q)
qed

lemma item_rel_assign:
  "list_all2 (item_rel lo h) fps frag \<Longrightarrow> list_all2 (item_rel lo h) cur acc \<Longrightarrow>
     list_all2 (item_rel lo h) (fold (\<lambda>(k, x). AList.update k x) fps cur) (Object_assign acc frag)"
proof (induction arbitrary: cur acc rule: list_all2_induct)
  case Nil
  then show ?case by simp
next
  case (Cons p ps q qs)
  obtain k v where p: "p = (k, v)" by (cases p)
  obtain k' j where q: "q = (k', j)" by (cases q)
  from Cons.hyps(1) p q have kk: "k' = k" and r: "reifies lo h v j"
    by simp_all
  have "list_all2 (item_rel lo h) (AList.update k v cur) (AList.update k j acc)"
    using Cons.prems r by (rule item_rel_update)
  from Cons.IH [OF this] show ?case
    by (simp add: p q kk set_property_def)
qed

lemma item_rel_mono:
  assumes "list_all2 (item_rel lo h) ps js"
    and "\<And>v j. reifies lo h v j \<Longrightarrow> reifies lo' h' v j"
  shows "list_all2 (item_rel lo' h') ps js"
  using assms(1)
  by (rule list_all2_mono) (simp add: item_rel_def assms(2))

lemma list_all2_item_rel_Cons [simp]:
  "list_all2 (item_rel lo h) (p # ps) (q # qs) \<longleftrightarrow>
     item_rel lo h p q \<and> list_all2 (item_rel lo h) ps qs"
  by simp

lemma reifies_Object':
  "reifies lo h (Ref a) (JObject js) \<longleftrightarrow>
     lo \<le> a \<and> a < length h \<and> (\<exists>ps. h ! a = Obj ps \<and> list_all2 (item_rel lo h) ps js)"
  unfolding reifies_Object item_rel_def [abs_def] by auto

lemma translate_heap:
  assumes rep: "rep_procedure lo h v p" and lo: "lo \<le> length h"
  shows "\<exists>a cells fps.
           getPathsForProcedure_heap conv b n v h = (Returns (Ref a), h @ cells) \<and>
           length h \<le> a \<and> a < length (h @ cells) \<and> (h @ cells) ! a = Obj fps \<and>
           list_all2 (item_rel (length h) (h @ cells)) fps (getPathsForProcedure conv b n p)"
proof -
  from rep obtain a d ia dps where
    v: "v = Ref a" and bounds: "a < lo" "d < lo" "ia < lo"
    and ha: "h ! a = Obj [(''_def'', Ref d)]"
    and hd: "h ! d = Obj dps"
    and ty: "map_of dps ''type'' = Some (Str (type_name (type p)))"
    and ins: "map_of dps ''inputs'' = Some (Ref ia)"
    and hia: "h ! ia = Arr (map Zod (inputs p))"
    and out: "(case map_of dps ''output'' of None \<Rightarrow> Undefined | Some x \<Rightarrow> x) =
                (case outputType p of None \<Rightarrow> Undefined | Some z \<Rightarrow> Zod z)"
    unfolding rep_procedure_def by blast
  from bounds lo have lens: "a < length h" "d < length h" "ia < length h" by simp_all
  note facts = v lens ha hd ty ins hia out
  show ?thesis
    using facts
    by (cases "type p"; cases "inputs p"; cases "outputType p")
       (simp_all add: getPathsForProcedure_heap_def prog_defs type_name_def
          getPathsForProcedure_def PROCEDURE_TYPE_HTTP_METHOD_MAP_def nth_append
          set_property_def reifies_Object' reifies_Array reifies_Str reifies_Bool
          reifies_Fragment Let_def)
qed

lemma rep_entries_map_of_None:
  "rep_entries lo h ps r \<Longrightarrow> map_of ps k = None \<longleftrightarrow> map_of r k = None"
  by (induction ps r rule: list_induct2') auto

lemma rep_entries_map_of_Some:
  "rep_entries lo h ps r \<Longrightarrow> map_of ps k = Some x \<Longrightarrow>
     \<exists>e. map_of r k = Some e \<and> rep_entry lo h x e"
  by (induction ps r rule: list_induct2') (auto split: if_splits)

lemma rep_entry_not_flagged:
  assumes "rep_entry lo h x e" and "lo \<le> length h"
  shows "\<exists>a qs. x = Ref a \<and> a < length h \<and> h ! a = Obj qs \<and>
                 map_of qs ''procedure'' \<noteq> Some (Bool True)"
proof (cases e)
  case (AnyProcedure p)
  with assms show ?thesis by (auto simp: rep_procedure_def)
next
  case (RouterRecord r)
  with assms obtain a ps where x: "x = Ref a" "a < lo" "h ! a = Obj ps"
    and ps: "rep_entries lo h ps r" by auto
  have "map_of ps ''procedure'' \<noteq> Some (Bool True)"
  proof
    assume "map_of ps ''procedure'' = Some (Bool True)"
    from rep_entries_map_of_Some [OF ps this] obtain e' where "rep_entry lo h (Bool True) e'"
      by blast
    then show False by (cases e') (auto simp: rep_procedure_def)
  qed
  with x assms(2) show ?thesis by auto
qed

lemma isProcedure_heap_procedure:
  "rep_procedure lo h v p \<Longrightarrow> lo \<le> length h \<Longrightarrow> isProcedure_heap v h = (Returns True, h)"
  by (auto simp: rep_procedure_def isProcedure_heap_def prog_defs)

lemma isProcedure_heap_record:
  assumes "a < lo" "lo \<le> length h" "h ! a = Obj ps" "rep_entries lo h ps r"
  shows "isProcedure_heap (Ref a) h =
           ((case map_of r ''_def'' of None \<Rightarrow> Throws TypeError | Some e \<Rightarrow> Returns False), h)"
proof (cases "map_of ps ''_def''")
  case None
  with assms(4) have "map_of r ''_def'' = None" by (simp add: rep_entries_map_of_None)
  with None assms show ?thesis by (simp add: isProcedure_heap_def prog_defs)
next
  case (Some x)
  from rep_entries_map_of_Some [OF assms(4) Some] obtain e where
    e: "map_of r ''_def'' = Some e" "rep_entry lo h x e" by blast
  from rep_entry_not_flagged [OF e(2) assms(2)] obtain a' qs where
    "x = Ref a'" "a' < length h" "h ! a' = Obj qs" "map_of qs ''procedure'' \<noteq> Some (Bool True)"
    by blast
  with Some e(1) assms show ?thesis
    by (auto simp: isProcedure_heap_def prog_defs split: option.splits)
qed

lemma translate_heap_post:
  assumes "rep_procedure lo h v p" and "lo \<le> length h"
  shows "walk_post h (getPathsForProcedure_heap conv b n v h) (Inr (getPathsForProcedure conv b n p))"
proof -
  from translate_heap [OF assms, of conv b n] obtain a cells fps where
    run: "getPathsForProcedure_heap conv b n v h = (Returns (Ref a), h @ cells)"
    and a: "length h \<le> a" "a < length (h @ cells)" "(h @ cells) ! a = Obj fps"
    and items: "list_all2 (item_rel (length h) (h @ cells)) fps (getPathsForProcedure conv b n p)"
    by blast
  show ?thesis
    unfolding walk_post_def run using a items by simp
qed

text \<open>One turn of the loop after the fragment has been computed.\<close>

lemma assign_step:
  fixes h :: "('z, 's) heap"
  assumes pa: "pa < length h" "h ! pa = Obj cur"
    and inv: "list_all2 (item_rel (Suc pa) h) cur acc"
    and post: "walk_post h (Returns fragment, h1) (Inr frag)"
  shows "\<exists>cells cur2.
           Object_assign_heap (Ref pa) fragment h1 = (Returns (), h[pa := Obj cur2] @ cells) \<and>
           list_all2 (item_rel (Suc pa) (h[pa := Obj cur2] @ cells)) cur2 (Object_assign acc frag)"
proof -
  from post obtain cells fa fps where h1: "h1 = h @ cells" and fragment: "fragment = Ref fa"
    and fa: "length h \<le> fa" "fa < length h1" "h1 ! fa = Obj fps"
    and items: "list_all2 (item_rel (length h) h1) fps frag"
    unfolding walk_post_def by auto
  let ?cur2 = "fold (\<lambda>(k, x). AList.update k x) fps cur"
  let ?h2 = "h1[pa := Obj ?cur2]"
  from pa h1 have pa1: "pa < length h1" "h1 ! pa = Obj cur" by (simp_all add: nth_append)
  have run: "Object_assign_heap (Ref pa) fragment h1 = (Returns (), ?h2)"
    unfolding fragment using pa1 fa by (intro Object_assign_heap_eval) simp_all
  have h2: "?h2 = h[pa := Obj ?cur2] @ cells"
    using pa by (simp add: h1 list_update_append)
  have old: "list_all2 (item_rel (Suc pa) ?h2) cur acc"
    using inv
  proof (rule item_rel_mono)
    fix v j assume "reifies (Suc pa) h v j"
    then have "reifies (Suc pa) h1 v j" unfolding h1 by (rule reifies_extend)
    then show "reifies (Suc pa) ?h2 v j" by (rule reifies_update_below) simp
  qed
  have new: "list_all2 (item_rel (Suc pa) ?h2) fps frag"
    using items
  proof (rule item_rel_mono)
    fix v j assume "reifies (length h) h1 v j"
    moreover have "Suc pa \<le> length h" using pa(1) by simp
    ultimately have "reifies (Suc pa) h1 v j" by (rule reifies_lower)
    then show "reifies (Suc pa) ?h2 v j" by (rule reifies_update_below) simp
  qed
  have "list_all2 (item_rel (Suc pa) ?h2) ?cur2 (Object_assign acc frag)"
    using new old by (rule item_rel_assign)
  then have "list_all2 (item_rel (Suc pa) (h[pa := Obj ?cur2] @ cells)) ?cur2 (Object_assign acc frag)"
    by (simp only: h2)
  with run h2 show ?thesis by (intro exI [of _ cells] exI [of _ ?cur2]) simp
qed

lemma loop_continue:
  fixes h :: "('z, 's) heap" and K :: "(unit, 'z, 's) prog"
  assumes pa: "lo \<le> pa" "pa < length h" "h ! pa = Obj cur"
    and inv: "list_all2 (item_rel (Suc pa) h) cur acc"
    and rest_rep: "rep_entries lo h ps' rest"
    and post: "walk_post h (Returns fragment, h1) (Inr frag)"
    and IH: "\<And>h2 cur2. pa < length h2 \<Longrightarrow> h2 ! pa = Obj cur2 \<Longrightarrow>
               list_all2 (item_rel (Suc pa) h2) cur2 (Object_assign acc frag) \<Longrightarrow>
               rep_entries lo h2 ps' rest \<Longrightarrow> lo \<le> length h2 \<Longrightarrow>
               loop_post pa h2 (K h2) expected"
  shows "loop_post pa h (bind (Object_assign_heap (Ref pa) fragment) (\<lambda>_. K) h1) expected"
proof -
  from assign_step [OF pa(2,3) inv post] obtain cells cur2 where
    run: "Object_assign_heap (Ref pa) fragment h1 = (Returns (), h[pa := Obj cur2] @ cells)"
    and inv2: "list_all2 (item_rel (Suc pa) (h[pa := Obj cur2] @ cells)) cur2 (Object_assign acc frag)"
    by blast
  let ?h2 = "h[pa := Obj cur2] @ cells"
  have len: "pa < length ?h2" using pa(2) by simp
  have at: "?h2 ! pa = Obj cur2" using pa(2) by (simp add: nth_append)
  have agree: "\<forall>a < lo. ?h2 ! a = h ! a" using pa(1,2) by (auto simp: nth_append)
  have rep2: "rep_entries lo ?h2 ps' rest" using rest_rep agree by (rule rep_agree(2))
  have lo2: "lo \<le> length ?h2" using pa(1,2) by simp
  from IH [OF len at inv2 rep2 lo2] obtain cells' cur' where
    snd': "snd (K ?h2) = ?h2[pa := Obj cur'] @ cells'"
    and res': "(case expected of
                  Inl e \<Rightarrow> fst (K ?h2) = Throws e
                | Inr acc' \<Rightarrow> fst (K ?h2) = Returns () \<and>
                             list_all2 (item_rel (Suc pa) (snd (K ?h2))) cur' acc')"
    unfolding loop_post_def by blast
  have whole: "bind (Object_assign_heap (Ref pa) fragment) (\<lambda>_. K) h1 = K ?h2"
    by (simp add: bind_def run)
  have "?h2[pa := Obj cur'] @ cells' = h[pa := Obj cur'] @ (cells @ cells')"
    using pa(2) by (simp add: list_update_append)
  with snd' have "snd (K ?h2) = h[pa := Obj cur'] @ (cells @ cells')" by simp
  with res' show ?thesis unfolding loop_post_def whole by blast
qed

lemma loop_post_stop:
  fixes h :: "('z, 's) heap"
  assumes "pa < length h" "h ! pa = Obj cur" "(\<exists>cells. h' = h @ cells)"
  shows "loop_post pa h (Throws e, h') (Inl e)"
proof -
  from assms(3) obtain cells where "h' = h @ cells" by blast
  then have "h' = h[pa := Obj cur] @ cells" using assms(1,2) by (simp add: list_update_same_conv [THEN iffD2])
  then show ?thesis unfolding loop_post_def by auto
qed

lemma depth_pos: "0 < depth r"
  by (induction r rule: depth.induct) auto

lemma walk_heap_refines:
  fixes conv :: "'z \<Rightarrow> 's"
  shows "\<forall>fuel (h :: ('z, 's) heap) a ps lo.
           a < lo \<and> lo \<le> length h \<and> h ! a = Obj ps \<and> rep_entries lo h ps r \<and> depth r \<le> fuel \<longrightarrow>
           walk_post h (getPathsForRouterRecord_heap fuel conv b (Ref a) h)
             (getPathsForRouterRecord conv b r)"
    and "\<forall>fuel (h :: ('z, 's) heap) pa cur ps lo.
           lo \<le> pa \<and> pa < length h \<and> h ! pa = Obj cur \<and>
           list_all2 (item_rel (Suc pa) h) cur acc \<and> rep_entries lo h ps r \<and> depth r \<le> Suc fuel \<longrightarrow>
           loop_post pa h (forEntries_heap fuel conv b ps (Ref pa) h) (forEntries conv b r acc)"
proof (induction conv b r and conv b r acc rule: getPathsForRouterRecord_forEntries.induct)
  case (1 conv b r)
  show ?case
  proof (intro allI impI, elim conjE)
    fix fuel and h :: "('z, 's) heap" and a ps lo
    assume a: "a < lo" and lo: "lo \<le> length h" and ha: "h ! a = Obj ps"
      and rep: "rep_entries lo h ps r" and fuel: "depth r \<le> fuel"
    from fuel depth_pos [of r] obtain f where f: "fuel = Suc f" by (cases fuel) auto
    let ?pa = "length h"
    let ?h0 = "h @ [Obj []]"
    have "\<forall>x < lo. ?h0 ! x = h ! x" using lo by (simp add: nth_append)
    with rep have rep0: "rep_entries lo ?h0 ps r" by (rule rep_agree(2))
    have "loop_post ?pa ?h0 (forEntries_heap f conv b ps (Ref ?pa) ?h0) (forEntries conv b r [])"
      using "1.IH" [rule_format, of lo ?pa ?h0 "[]" ps f] lo rep0 fuel f by simp
    then obtain cells cur' where
      snd': "snd (forEntries_heap f conv b ps (Ref ?pa) ?h0) = ?h0[?pa := Obj cur'] @ cells"
      and res': "(case forEntries conv b r [] of
                    Inl e \<Rightarrow> fst (forEntries_heap f conv b ps (Ref ?pa) ?h0) = Throws e
                  | Inr acc' \<Rightarrow>
                      fst (forEntries_heap f conv b ps (Ref ?pa) ?h0) = Returns () \<and>
                      list_all2 (item_rel (Suc ?pa)
                        (snd (forEntries_heap f conv b ps (Ref ?pa) ?h0))) cur' acc')"
      unfolding loop_post_def by blast
    let ?res = "forEntries_heap f conv b ps (Ref ?pa) ?h0"
    have snd2: "snd ?res = h @ Obj cur' # cells" using snd' by simp
    have run: "getPathsForRouterRecord_heap fuel conv b (Ref a) h =
                 (case ?res of
                    (Returns x, h') \<Rightarrow> (Returns (Ref ?pa), h')
                  | (Throws e, h') \<Rightarrow> (Throws e, h')
                  | (Stuck, h') \<Rightarrow> (Stuck, h'))"
      using a lo ha by (simp add: f prog_defs nth_append)
    show "walk_post h (getPathsForRouterRecord_heap fuel conv b (Ref a) h)
            (getPathsForRouterRecord conv b r)"
    proof (cases "forEntries conv b r []")
      case (Inl e)
      with res' have "fst ?res = Throws e" by simp
      then have "?res = (Throws e, h @ Obj cur' # cells)" using snd2 by (cases ?res) simp
      then show ?thesis unfolding walk_post_def run by (simp add: Inl)
    next
      case (Inr acc')
      with res' have r: "fst ?res = Returns ()"
        and items: "list_all2 (item_rel (Suc ?pa) (snd ?res)) cur' acc'" by simp_all
      from r have whole: "?res = (Returns (), h @ Obj cur' # cells)" using snd2 by (cases ?res) simp
      have "list_all2 (item_rel ?pa (h @ Obj cur' # cells)) cur' acc'"
        using items unfolding snd2
      proof (rule item_rel_mono)
        fix v j assume "reifies (Suc ?pa) (h @ Obj cur' # cells) v j"
        moreover have "?pa \<le> Suc ?pa" by simp
        ultimately show "reifies ?pa (h @ Obj cur' # cells) v j" by (rule reifies_lower)
      qed
      then show ?thesis unfolding walk_post_def run whole by (simp add: Inr)
    qed
  qed
next
  case (2 conv b acc)
  show ?case
  proof (intro allI impI, elim conjE)
    fix fuel and h :: "('z, 's) heap" and pa cur ps lo
    assume pa: "pa < length h" "h ! pa = Obj cur"
      and inv: "list_all2 (item_rel (Suc pa) h) cur acc" and rep: "rep_entries lo h ps []"
    from rep have ps: "ps = []" by (cases ps) auto
    have same: "h = h[pa := Obj cur] @ []"
      using pa by (simp add: list_update_same_conv [THEN iffD2])
    have "\<exists>cells cur'. h = h[pa := Obj cur'] @ cells \<and> list_all2 (item_rel (Suc pa) h) cur' acc"
      using same inv by (intro exI [of _ "[]"] exI [of _ cur] conjI)
    then show "loop_post pa h (forEntries_heap fuel conv b ps (Ref pa) h) (forEntries conv b [] acc)"
      unfolding loop_post_def ps by (simp add: ret_def)
  qed
next
  case (3 conv b name e rest acc)
  show ?case
  proof (intro allI impI, elim conjE)
    fix fuel and h :: "('z, 's) heap" and pa cur ps lo
    assume lo: "lo \<le> pa" and pa: "pa < length h" "h ! pa = Obj cur"
      and inv: "list_all2 (item_rel (Suc pa) h) cur acc"
      and rep: "rep_entries lo h ps ((name, e) # rest)"
      and fuel: "depth ((name, e) # rest) \<le> Suc fuel"
    from rep obtain v ps' where ps: "ps = (name, v) # ps'"
      and rep_e: "rep_entry lo h v e" and rep_rest: "rep_entries lo h ps' rest"
      by (cases ps) auto
    from lo pa have lo_len: "lo \<le> length h" by simp
    let ?K = "forEntries_heap fuel conv b ps' (Ref pa)"
    show "loop_post pa h (forEntries_heap fuel conv b ps (Ref pa) h)
            (forEntries conv b ((name, e) # rest) acc)"
    proof (cases e)
      case (AnyProcedure p)
      with rep_e have rp: "rep_procedure lo h v p" by simp
      have guard: "isProcedure_heap v h = (Returns True, h)"
        using rp lo_len by (rule isProcedure_heap_procedure)
      let ?frag = "getPathsForProcedure conv b name p"
      obtain out h1 where tr: "getPathsForProcedure_heap conv b name v h = (out, h1)"
        by (cases "getPathsForProcedure_heap conv b name v h")
      have post: "walk_post h (out, h1) (Inr ?frag)"
        using translate_heap_post [OF rp lo_len, of conv b name] tr by simp
      then obtain fragment where out: "out = Returns fragment"
        unfolding walk_post_def by auto
      have depth_rest: "depth rest \<le> Suc fuel" using fuel AnyProcedure by simp
      have "loop_post pa h (bind (Object_assign_heap (Ref pa) fragment) (\<lambda>_. ?K) h1)
              (forEntries conv b rest (Object_assign acc ?frag))"
      proof (rule loop_continue [OF lo pa inv rep_rest post [unfolded out]])
        fix h2 :: "('z, 's) heap" and cur2
        assume "pa < length h2" "h2 ! pa = Obj cur2"
          "list_all2 (item_rel (Suc pa) h2) cur2 (Object_assign acc ?frag)"
          "rep_entries lo h2 ps' rest" "lo \<le> length h2"
        then show "loop_post pa h2 (?K h2) (forEntries conv b rest (Object_assign acc ?frag))"
          using "3.IH"(1) [OF _ AnyProcedure, of True, rule_format, of lo pa h2 cur2 ps' fuel]
            lo depth_rest AnyProcedure by simp
      qed
      moreover have "forEntries_heap fuel conv b ps (Ref pa) h =
                       bind (Object_assign_heap (Ref pa) fragment) (\<lambda>_. ?K) h1"
        by (simp add: ps bind_def guard tr out)
      ultimately show ?thesis by (simp add: AnyProcedure)
    next
      case (RouterRecord r')
      with rep_e obtain a' qs where v: "v = Ref a'" and a': "a' < lo" and ha': "h ! a' = Obj qs"
        and rep_r': "rep_entries lo h qs r'" by auto
      have guard: "isProcedure_heap v h =
                     ((case map_of r' ''_def'' of None \<Rightarrow> Throws TypeError
                       | Some e \<Rightarrow> Returns False), h)"
        unfolding v using a' lo_len ha' rep_r' by (rule isProcedure_heap_record)
      show ?thesis
      proof (cases "map_of r' ''_def''")
        case None
        have "forEntries_heap fuel conv b ps (Ref pa) h = (Throws TypeError, h)"
          using guard unfolding v by (simp add: ps v bind_def None)
        moreover have "forEntries conv b ((name, e) # rest) acc = Inl TypeError"
          by (simp add: RouterRecord None)
        moreover have "loop_post pa h (Throws TypeError, h) (Inl TypeError)"
          using pa by (intro loop_post_stop [of pa h cur]) auto
        ultimately show ?thesis by simp
      next
        case (Some d)
        then have ans: "isProcedure e = Inr False" by (simp add: RouterRecord)
        have depth_r': "depth r' \<le> fuel" and depth_rest: "depth rest \<le> Suc fuel"
          using fuel RouterRecord by simp_all
        obtain out h1 where sub: "getPathsForRouterRecord_heap fuel conv b (Ref a') h = (out, h1)"
          by (cases "getPathsForRouterRecord_heap fuel conv b (Ref a') h")
        have post: "walk_post h (out, h1) (getPathsForRouterRecord conv b r')"
          using "3.IH"(2) [OF ans RouterRecord, rule_format, of a' lo h qs fuel]
            a' lo_len ha' rep_r' depth_r' sub by simp
        have start: "forEntries_heap fuel conv b ps (Ref pa) h =
                       (case (out, h1) of
                          (Returns fragment, h') \<Rightarrow>
                            bind (Object_assign_heap (Ref pa) fragment) (\<lambda>_. ?K) h'
                        | (Throws e, h') \<Rightarrow> (Throws e, h')
                        | (Stuck, h') \<Rightarrow> (Stuck, h'))"
          using guard sub unfolding v
          by (cases out) (simp_all add: ps v bind_def Some)
        show ?thesis
        proof (cases "getPathsForRouterRecord conv b r'")
          case (Inl err)
          with post have "out = Throws err" and "\<exists>cells. h1 = h @ cells"
            unfolding walk_post_def by auto
          then have "loop_post pa h (forEntries_heap fuel conv b ps (Ref pa) h) (Inl err)"
            unfolding start using pa by (simp add: loop_post_stop [of pa h cur])
          then show ?thesis
            by (simp add: RouterRecord Some Inl del: getPathsForRouterRecord.simps)
        next
          case (Inr frag)
          with post obtain fragment where out: "out = Returns fragment"
            unfolding walk_post_def by auto
          have "loop_post pa h (bind (Object_assign_heap (Ref pa) fragment) (\<lambda>_. ?K) h1)
                  (forEntries conv b rest (Object_assign acc frag))"
          proof (rule loop_continue [OF lo pa inv rep_rest post [unfolded out Inr]])
            fix h2 :: "('z, 's) heap" and cur2
            assume "pa < length h2" "h2 ! pa = Obj cur2"
              "list_all2 (item_rel (Suc pa) h2) cur2 (Object_assign acc frag)"
              "rep_entries lo h2 ps' rest" "lo \<le> length h2"
            then show "loop_post pa h2 (?K h2) (forEntries conv b rest (Object_assign acc frag))"
              using "3.IH"(3) [OF ans RouterRecord Inr, rule_format, of lo pa h2 cur2 ps' fuel]
                lo depth_rest by simp
          qed
          then show ?thesis unfolding start out
            by (simp add: RouterRecord Some Inr del: getPathsForRouterRecord.simps)
        qed
      qed
    qed
  qed
qed

lemma document_heap:
  fixes h :: "('z, 's) heap" and opts :: "('z, 's) val options"
  assumes rep: "represents h (router opts) r" and fuel: "depth r \<le> fuel"
  shows "take (length h) (snd (trpc2OpenApi_heap fuel conv opts h)) = h \<and>
         agrees (length h) (trpc2OpenApi_heap fuel conv opts h)
           (trpc2OpenApi conv
              \<lparr>apiTitle = apiTitle opts, apiVersion = apiVersion opts,
               basePath = basePath opts, router = r\<rparr>)"
proof -
  from rep obtain a aps d dps x ps where v: "router opts = Ref a"
    and a: "a < length h" "h ! a = Obj aps" "map_of aps ''_def'' = Some (Ref d)"
    and d: "d < length h" "h ! d = Obj dps" "map_of dps ''procedures'' = Some (Ref x)"
    and x: "x < length h" "h ! x = Obj ps"
    and ps: "rep_entries (length h) h ps r"
    unfolding represents_def by blast
  let ?info = "Obj [(''title'', Str (apiTitle opts)), (''version'', Str (apiVersion opts))]"
  let ?h0 = "h @ [?info]"
  let ?walk = "getPathsForRouterRecord_heap fuel conv (basePath opts) (Ref x) ?h0"
  have "\<forall>y < length h. ?h0 ! y = h ! y" by (simp add: nth_append)
  with ps have ps0: "rep_entries (length h) ?h0 ps r" by (rule rep_agree(2))
  have post: "walk_post ?h0 ?walk (getPathsForRouterRecord conv (basePath opts) r)"
    using walk_heap_refines(1) [rule_format, of x "length h" ?h0 ps r fuel conv "basePath opts"]
      x ps0 fuel by (simp add: nth_append)
  then obtain cells where cells: "snd ?walk = ?h0 @ cells" unfolding walk_post_def by blast
  have run: "trpc2OpenApi_heap fuel conv opts h =
               (case ?walk of
                  (Returns paths, h') \<Rightarrow>
                    (Returns (Ref (Suc (length h'))),
                     h' @ [Obj [], Obj [(''openapi'', Str ''3.1.0''), (''info'', Ref (length h)),
                                        (''paths'', paths), (''components'', Ref (length h'))]])
                | (Throws e, h') \<Rightarrow> (Throws e, h')
                | (Stuck, h') \<Rightarrow> (Stuck, h'))"
    using a d
    by (simp add: trpc2OpenApi_heap_def v bind_def new_def get_prop_def nth_append
          split: prod.splits outcome.splits)
  show ?thesis
  proof (cases "getPathsForRouterRecord conv (basePath opts) r")
    case (Inl e)
    with post have "fst ?walk = Throws e" unfolding walk_post_def by simp
    then have w: "?walk = (Throws e, ?h0 @ cells)" using cells by (cases ?walk) simp
    show ?thesis unfolding run w
      by (simp add: agrees_def trpc2OpenApi_def Inl del: getPathsForRouterRecord.simps)
  next
    case (Inr paths)
    with post obtain pa cur where r: "fst ?walk = Returns (Ref pa)"
      and pa: "length ?h0 \<le> pa" "pa < length (snd ?walk)" "snd ?walk ! pa = Obj cur"
      and items: "list_all2 (item_rel (length ?h0) (snd ?walk)) cur paths"
      unfolding walk_post_def by auto
    let ?h1 = "?h0 @ cells"
    from r have w: "?walk = (Returns (Ref pa), ?h1)" using cells by (cases ?walk) simp
    let ?doc = "Obj [(''openapi'', Str ''3.1.0''), (''info'', Ref (length h)),
                     (''paths'', Ref pa), (''components'', Ref (length ?h1))]"
    let ?h2 = "?h1 @ [Obj [], ?doc]"
    have items2: "list_all2 (item_rel (length h) ?h2) cur paths"
      using items unfolding cells
    proof (rule item_rel_mono)
      fix y j assume "reifies (length ?h0) ?h1 y j"
      moreover have "length h \<le> length ?h0" by simp
      ultimately have "reifies (length h) ?h1 y j" by (rule reifies_lower)
      then show "reifies (length h) ?h2 y j" by (rule reifies_extend)
    qed
    have pa1: "pa < length ?h1" "?h1 ! pa = Obj cur" using pa unfolding cells by simp_all
    have pa2: "pa < length ?h2" "?h2 ! pa = Obj cur"
      using pa1 by (simp_all only: nth_append length_append) simp_all
    have "length h \<le> pa" using pa(1) by simp
    with pa2 items2 have rp: "reifies (length h) ?h2 (Ref pa) (JObject paths)"
      unfolding reifies_Object' by blast
    have "reifies (length h) ?h2 (Ref (Suc (length ?h1)))
            (JObject
               [(''openapi'', JString ''3.1.0''),
                (''info'', JObject [(''title'', JString (apiTitle opts)),
                                     (''version'', JString (apiVersion opts))]),
                (''paths'', JObject paths),
                (''components'', JObject [])])"
    proof -
      have doc: "?h2 ! Suc (length ?h1) = ?doc" "Suc (length ?h1) < length ?h2"
        "length h \<le> Suc (length ?h1)"
        by (simp_all add: nth_append)
      have info: "reifies (length h) ?h2 (Ref (length h))
                    (JObject [(''title'', JString (apiTitle opts)),
                              (''version'', JString (apiVersion opts))])"
        by (simp add: reifies_Object' reifies_Str nth_append)
      have comp: "reifies (length h) ?h2 (Ref (length ?h1)) (JObject [])"
        by (simp add: reifies_Object' nth_append)
      show ?thesis
        unfolding reifies_Object' [of _ _ "Suc (length ?h1)"] doc(1)
        using doc(2,3) info comp rp by (simp add: reifies_Str)
    qed
    then show ?thesis
      unfolding run w
      by (simp add: agrees_def trpc2OpenApi_def Inr del: getPathsForRouterRecord.simps)
  qed
qed

lemma representsI:
  "a < length h \<Longrightarrow> h ! a = Obj aps \<Longrightarrow> map_of aps ''_def'' = Some (Ref d) \<Longrightarrow>
   d < length h \<Longrightarrow> h ! d = Obj dps \<Longrightarrow> map_of dps ''procedures'' = Some (Ref x) \<Longrightarrow>
   x < length h \<Longrightarrow> h ! x = Obj ps \<Longrightarrow> rep_entries (length h) h ps r \<Longrightarrow>
   represents h (Ref a) r"
  unfolding represents_def by blast

lemma rep_procedureI:
  "a < lo \<Longrightarrow> d < lo \<Longrightarrow> ia < lo \<Longrightarrow> h ! a = Obj [(''_def'', Ref d)] \<Longrightarrow> h ! d = Obj dps \<Longrightarrow>
   map_of dps ''procedure'' = Some (Bool True) \<Longrightarrow>
   map_of dps ''type'' = Some (Str (type_name (type p))) \<Longrightarrow>
   map_of dps ''inputs'' = Some (Ref ia) \<Longrightarrow> h ! ia = Arr (map Zod (inputs p)) \<Longrightarrow>
   (case map_of dps ''output'' of None \<Rightarrow> Undefined | Some x \<Rightarrow> x) =
     (case outputType p of None \<Rightarrow> Undefined | Some z \<Rightarrow> Zod z) \<Longrightarrow>
   rep_procedure lo h (Ref a) p"
  unfolding rep_procedure_def by blast

lemma rep1: "represents health_heap (Ref 5) health_tree"
proof -
  have "rep_procedure (length health_heap) health_heap (Ref 2) \<lparr>type = Query, inputs = [], outputType = None\<rparr>"
    by (rule rep_procedureI [of 2 _ 1 0]) (simp add: health_heap_def type_name_def)+
  then show ?thesis
    by (intro representsI [of 5 _ _ 4 _ 3]) (simp add: health_heap_def health_tree_def)+
qed

lemma rep2: "represents health_heap_shifted (Ref 1) health_tree"
proof -
  have "rep_procedure (length health_heap_shifted) health_heap_shifted (Ref 3) \<lparr>type = Query, inputs = [], outputType = None\<rparr>"
    by (rule rep_procedureI [of 3 _ 4 6]) (simp add: health_heap_shifted_def type_name_def)+
  then show ?thesis
    by (intro representsI [of 1 _ _ 5 _ 2]) (simp add: health_heap_shifted_def health_tree_def)+
qed

section \<open>The translator: responses, inputs, method and route\<close>

text \<open>
  Claim C1. For a procedure of kind query or mutation the translator returns one route
  whose operation has the property \<open>responses\<close> exactly once. With an output validator
  \<open>z\<close> the \<open>200\<close> response is the description \<open>Successful response\<close> and, under
  \<open>content\<close> / \<open>application/json\<close> / \<open>schema\<close>, the envelope object with \<open>type\<close>
  \<open>object\<close>, \<open>properties\<close> holding \<open>result\<close>, and \<open>required\<close> \<open>[result]\<close>, where
  \<open>result\<close> is again an object with \<open>properties\<close> holding \<open>data\<close>, the converted output
  schema, and \<open>required\<close> \<open>[data]\<close> (properties in the order the source writes them).
  With no output validator the \<open>200\<close> response is the description alone, with no
  \<open>content\<close> property.
\<close>

theorem response_envelope:
  assumes "type p = Query \<or> type p = Mutation"
  shows "\<exists>method operation.
           getPathsForProcedure conv b n p = [(b @ ''/'' @ n, JObject [(method, JObject operation)])] \<and>
           distinct (map fst operation) \<and>
           map_of operation ''responses'' =
             Some (JObject
               [(''200'',
                 (case outputType p of
                    Some z \<Rightarrow>
                      JObject
                        [(''description'', JString ''Successful response''),
                         (''content'',
                          JObject
                            [(''application/json'',
                              JObject
                                [(''schema'',
                                  JObject
                                    [(''type'', JString ''object''),
                                     (''properties'',
                                      JObject
                                        [(''result'',
                                          JObject
                                            [(''type'', JString ''object''),
                                             (''properties'', JObject [(''data'', Schema (conv z))]),
                                             (''required'', JArray [JString ''data''])])]),
                                     (''required'', JArray [JString ''result''])])])])]
                  | None \<Rightarrow> JObject [(''description'', JString ''Successful response'')]))])"
  using assms
  by (auto simp: getPathsForProcedure_def PROCEDURE_TYPE_HTTP_METHOD_MAP_def Let_def
        set_property_def split: list.splits option.splits)

theorem response_envelope_witness:
  "(\<exists>method operation.
      getPathsForProcedure (\<lambda>z::nat. z) ''/trpc'' ''greeting''
        \<lparr>type = Query, inputs = [], outputType = Some 7\<rparr>
        = [(''/trpc/greeting'', JObject [(method, JObject operation)])] \<and>
      distinct (map fst operation) \<and>
      map_of operation ''responses'' =
        Some (JObject
          [(''200'',
            JObject
              [(''description'', JString ''Successful response''),
               (''content'',
                JObject
                  [(''application/json'',
                    JObject
                      [(''schema'',
                        JObject
                          [(''type'', JString ''object''),
                           (''properties'',
                            JObject
                              [(''result'',
                                JObject
                                  [(''type'', JString ''object''),
                                   (''properties'', JObject [(''data'', Schema 7)]),
                                   (''required'', JArray [JString ''data''])])]),
                           (''required'', JArray [JString ''result''])])])])])]))
   \<and> (\<exists>method operation.
      getPathsForProcedure (\<lambda>z::nat. z) ''/trpc'' ''ping''
        \<lparr>type = Mutation, inputs = [], outputType = None\<rparr>
        = [(''/trpc/ping'', JObject [(method, JObject operation)])] \<and>
      distinct (map fst operation) \<and>
      map_of operation ''responses'' =
        Some (JObject [(''200'', JObject [(''description'', JString ''Successful response'')])]))"
  using response_envelope [of "\<lparr>type = Query, inputs = [], outputType = Some (7::nat)\<rparr>"
                              "\<lambda>z::nat. z" "''/trpc''" "''greeting''"]
        response_envelope [of "\<lparr>type = Mutation, inputs = [], outputType = None\<rparr>"
                              "\<lambda>z::nat. z" "''/trpc''" "''ping''"]
  by simp



text \<open>
  Claim C3. For a query or mutation with an empty \<open>inputs\<close> array the operation has neither
  \<open>parameters\<close> nor \<open>requestBody\<close>. With a first input validator \<open>z\<close>, a query (method
  \<open>get\<close>) has \<open>parameters\<close> equal to the one-element array holding the parameter named
  \<open>input\<close>, in \<open>query\<close>, whose content is the converted schema under \<open>application/json\<close>,
  and no \<open>requestBody\<close>; a mutation (method \<open>post\<close>) has \<open>requestBody\<close> with \<open>required\<close>
  true and the same content, and no \<open>parameters\<close>.
\<close>

theorem input_presence:
  assumes "type p = Query \<or> type p = Mutation"
  shows "\<exists>method operation.
           getPathsForProcedure conv b n p = [(b @ ''/'' @ n, JObject [(method, JObject operation)])] \<and>
           distinct (map fst operation) \<and>
           (case inputs p of
              [] \<Rightarrow> map_of operation ''parameters'' = None \<and> map_of operation ''requestBody'' = None
            | z # zs \<Rightarrow>
                (if type p = Query
                 then method = ''get'' \<and>
                      map_of operation ''parameters'' =
                        Some (JArray
                          [JObject
                             [(''name'', JString ''input''),
                              (''in'', JString ''query''),
                              (''content'',
                               JObject [(''application/json'', JObject [(''schema'', Schema (conv z))])])]]) \<and>
                      map_of operation ''requestBody'' = None
                 else method = ''post'' \<and>
                      map_of operation ''requestBody'' =
                        Some (JObject
                          [(''required'', JBool True),
                           (''content'',
                            JObject [(''application/json'', JObject [(''schema'', Schema (conv z))])])]) \<and>
                      map_of operation ''parameters'' = None))"
  using assms
  by (auto simp: getPathsForProcedure_def PROCEDURE_TYPE_HTTP_METHOD_MAP_def Let_def
        set_property_def split: list.splits option.splits)

theorem input_presence_witness:
  "(\<exists>method operation.
      getPathsForProcedure (\<lambda>z::nat. z) ''/trpc'' ''health''
        \<lparr>type = Query, inputs = [], outputType = None\<rparr>
        = [(''/trpc/health'', JObject [(method, JObject operation)])] \<and>
      distinct (map fst operation) \<and>
      map_of operation ''parameters'' = None \<and> map_of operation ''requestBody'' = None)
   \<and> (\<exists>method operation.
      getPathsForProcedure (\<lambda>z::nat. z) ''/trpc'' ''greeting''
        \<lparr>type = Query, inputs = [4], outputType = None\<rparr>
        = [(''/trpc/greeting'', JObject [(method, JObject operation)])] \<and>
      distinct (map fst operation) \<and>
      method = ''get'' \<and>
      map_of operation ''parameters'' =
        Some (JArray
          [JObject
             [(''name'', JString ''input''),
              (''in'', JString ''query''),
              (''content'', JObject [(''application/json'', JObject [(''schema'', Schema 4)])])]]) \<and>
      map_of operation ''requestBody'' = None)
   \<and> (\<exists>method operation.
      getPathsForProcedure (\<lambda>z::nat. z) ''/trpc'' ''createUser''
        \<lparr>type = Mutation, inputs = [5], outputType = None\<rparr>
        = [(''/trpc/createUser'', JObject [(method, JObject operation)])] \<and>
      distinct (map fst operation) \<and>
      method = ''post'' \<and>
      map_of operation ''requestBody'' =
        Some (JObject
          [(''required'', JBool True),
           (''content'', JObject [(''application/json'', JObject [(''schema'', Schema 5)])])]) \<and>
      map_of operation ''parameters'' = None)"
  using input_presence [of "\<lparr>type = Query, inputs = [], outputType = None\<rparr>"
                           "\<lambda>z::nat. z" "''/trpc''" "''health''"]
        input_presence [of "\<lparr>type = Query, inputs = [4::nat], outputType = None\<rparr>"
                           "\<lambda>z::nat. z" "''/trpc''" "''greeting''"]
        input_presence [of "\<lparr>type = Mutation, inputs = [5::nat], outputType = None\<rparr>"
                           "\<lambda>z::nat. z" "''/trpc''" "''createUser''"]
  by simp

text \<open>
  Claim C4. The one key of the fragment of a query or mutation named \<open>n\<close> under base path
  \<open>b\<close> is the concatenation of \<open>b\<close>, a slash and \<open>n\<close>, whatever the two strings are; and
  the keys of the paths a walk returns are these concatenations for its leaves that are
  not subscriptions, with the base path the walk was given.
\<close>

theorem route_key:
  "(type p \<noteq> Subscription \<longrightarrow> map fst (getPathsForProcedure conv b n p) = [b @ ''/'' @ n]) \<and>
   (getPathsForRouterRecord conv b r = Inr paths \<longrightarrow>
      fst ` set paths =
        {b @ ''/'' @ n' | n' p'. (n', p') \<in> set (leaves r) \<and> type p' \<noteq> Subscription})"
proof (intro conjI impI)
  assume "type p \<noteq> Subscription"
  then show "map fst (getPathsForProcedure conv b n p) = [b @ ''/'' @ n]"
    by (simp add: translate_keys)
next
  assume "getPathsForRouterRecord conv b r = Inr paths"
  from walk_keys [OF this]
  show "fst ` set paths =
          {b @ ''/'' @ n' | n' p'. (n', p') \<in> set (leaves r) \<and> type p' \<noteq> Subscription}"
    by auto
qed

theorem route_key_witness:
  "map fst (getPathsForProcedure (\<lambda>z::nat. z) '''' ''test''
              \<lparr>type = Query, inputs = [], outputType = None\<rparr>) = [''/test''] \<and>
   map fst (getPathsForProcedure (\<lambda>z::nat. z) ''api'' ''test''
              \<lparr>type = Query, inputs = [], outputType = None\<rparr>) = [''api/test''] \<and>
   map fst (getPathsForProcedure (\<lambda>z::nat. z) ''/trpc/'' ''/a b''
              \<lparr>type = Mutation, inputs = [], outputType = None\<rparr>) = [''/trpc///a b''] \<and>
   (\<exists>item. getPathsForRouterRecord (\<lambda>z::nat. z) ''api''
              [(''test'', AnyProcedure \<lparr>type = Query, inputs = [], outputType = None\<rparr>)]
            = Inr [(''api/test'', item)] \<and>
           fst ` set [(''api/test'', item)] =
             {''api'' @ ''/'' @ n' | n' p'.
                (n', p') \<in> set (leaves
                   [(''test'', AnyProcedure \<lparr>type = Query, inputs = [], outputType = None :: nat option\<rparr>)]) \<and>
                type p' \<noteq> Subscription})"
proof -
  let ?q = "\<lparr>type = Query, inputs = [], outputType = None :: nat option\<rparr>"
  obtain item where item:
    "getPathsForRouterRecord (\<lambda>z::nat. z) ''api'' [(''test'', AnyProcedure ?q)]
       = Inr [(''api/test'', item)]"
    by (simp add: getPathsForProcedure_def PROCEDURE_TYPE_HTTP_METHOD_MAP_def
          set_property_def Object_assign_def)
  show ?thesis
    using route_key [where p = ?q and conv = "\<lambda>z::nat. z" and b = "''''" and n = "''test''"]
          route_key [where p = ?q and conv = "\<lambda>z::nat. z" and b = "''api''" and n = "''test''"
                       and r = "[(''test'', AnyProcedure ?q)]" and paths = "[(''api/test'', item)]"]
          route_key [where p = "\<lparr>type = Mutation, inputs = [], outputType = None\<rparr>"
                       and conv = "\<lambda>z::nat. z" and b = "''/trpc/''" and n = "''/a b''"]
          item
    by simp
qed

text \<open>
  Claim C9. Only the first element of \<open>inputs\<close> is read: the translator returns for a
  procedure with inputs \<open>z, zs\<close> what it returns for the same procedure with inputs \<open>z\<close>
  alone, and the schema it places under \<open>parameters\<close> (query) or \<open>requestBody\<close> (mutation)
  is the conversion of \<open>z\<close>.
\<close>

theorem first_input_only:
  "getPathsForProcedure conv b n (p\<lparr>inputs := z # zs\<rparr>) =
     getPathsForProcedure conv b n (p\<lparr>inputs := [z]\<rparr>) \<and>
   (type p = Query \<longrightarrow>
      (\<exists>operation.
         getPathsForProcedure conv b n (p\<lparr>inputs := z # zs\<rparr>) =
           [(b @ ''/'' @ n, JObject [(''get'', JObject operation)])] \<and>
         map_of operation ''parameters'' =
           Some (JArray
             [JObject
                [(''name'', JString ''input''),
                 (''in'', JString ''query''),
                 (''content'',
                  JObject [(''application/json'', JObject [(''schema'', Schema (conv z))])])]]))) \<and>
   (type p = Mutation \<longrightarrow>
      (\<exists>operation.
         getPathsForProcedure conv b n (p\<lparr>inputs := z # zs\<rparr>) =
           [(b @ ''/'' @ n, JObject [(''post'', JObject operation)])] \<and>
         map_of operation ''requestBody'' =
           Some (JObject
             [(''required'', JBool True),
              (''content'',
               JObject [(''application/json'', JObject [(''schema'', Schema (conv z))])])])))"
  by (cases "type p")
     (auto simp: getPathsForProcedure_def PROCEDURE_TYPE_HTTP_METHOD_MAP_def Let_def
        set_property_def split: option.splits)

theorem first_input_only_witness:
  "getPathsForProcedure (\<lambda>z::nat. z) ''/trpc'' ''createUser''
     \<lparr>type = Mutation, inputs = [5, 6, 7], outputType = None\<rparr> =
   getPathsForProcedure (\<lambda>z::nat. z) ''/trpc'' ''createUser''
     \<lparr>type = Mutation, inputs = [5], outputType = None\<rparr> \<and>
   (\<exists>operation.
      getPathsForProcedure (\<lambda>z::nat. z) ''/trpc'' ''createUser''
        \<lparr>type = Mutation, inputs = [5, 6, 7], outputType = None\<rparr> =
        [(''/trpc/createUser'', JObject [(''post'', JObject operation)])] \<and>
      map_of operation ''requestBody'' =
        Some (JObject
          [(''required'', JBool True),
           (''content'', JObject [(''application/json'', JObject [(''schema'', Schema 5)])])])) \<and>
   getPathsForProcedure (\<lambda>z::nat. z) ''/trpc'' ''getUser''
     \<lparr>type = Query, inputs = [5, 6, 7], outputType = None\<rparr> =
   getPathsForProcedure (\<lambda>z::nat. z) ''/trpc'' ''getUser''
     \<lparr>type = Query, inputs = [5], outputType = None\<rparr> \<and>
   (\<exists>operation.
      getPathsForProcedure (\<lambda>z::nat. z) ''/trpc'' ''getUser''
        \<lparr>type = Query, inputs = [5, 6, 7], outputType = None\<rparr> =
        [(''/trpc/getUser'', JObject [(''get'', JObject operation)])] \<and>
      map_of operation ''parameters'' =
        Some (JArray
          [JObject
             [(''name'', JString ''input''),
              (''in'', JString ''query''),
              (''content'', JObject [(''application/json'', JObject [(''schema'', Schema 5)])])]]))"
  using first_input_only [where conv = "\<lambda>z::nat. z" and b = "''/trpc''" and n = "''createUser''"
          and p = "\<lparr>type = Mutation, inputs = [], outputType = None\<rparr>"
          and z = 5 and zs = "[6, 7]"]
        first_input_only [where conv = "\<lambda>z::nat. z" and b = "''/trpc''" and n = "''getUser''"
          and p = "\<lparr>type = Query, inputs = [], outputType = None\<rparr>"
          and z = 5 and zs = "[6, 7]"]
  by (simp cong: conj_cong)

section \<open>The document and the walk\<close>

text \<open>
  Claim C6. A document the entry point returns is the object with exactly the four
  properties \<open>openapi\<close> (the string \<open>3.1.0\<close>), \<open>info\<close> (the given title and version),
  \<open>paths\<close> (what the walk returned for the given base path and record) and \<open>components\<close>
  (the empty object). For the empty record the document is returned and its \<open>paths\<close> is
  the empty object, whatever the base path; and a document is returned whenever every
  guard of the walk answers.
\<close>

theorem document_shape:
  "(trpc2OpenApi conv opts = Inr doc \<longrightarrow>
      (\<exists>paths.
         getPathsForRouterRecord conv (basePath opts) (router opts) = Inr paths \<and>
         doc = JObject
                 [(''openapi'', JString ''3.1.0''),
                  (''info'', JObject [(''title'', JString (apiTitle opts)),
                                       (''version'', JString (apiVersion opts))]),
                  (''paths'', JObject paths),
                  (''components'', JObject [])])) \<and>
   (router opts = [] \<longrightarrow>
      trpc2OpenApi conv opts =
        Inr (JObject
               [(''openapi'', JString ''3.1.0''),
                (''info'', JObject [(''title'', JString (apiTitle opts)),
                                     (''version'', JString (apiVersion opts))]),
                (''paths'', JObject []),
                (''components'', JObject [])])) \<and>
   (guards_answer (router opts) \<longrightarrow> (\<exists>doc'. trpc2OpenApi conv opts = Inr doc'))"
proof (intro conjI impI)
  assume "trpc2OpenApi conv opts = Inr doc"
  then show "\<exists>paths.
         getPathsForRouterRecord conv (basePath opts) (router opts) = Inr paths \<and>
         doc = JObject
                 [(''openapi'', JString ''3.1.0''),
                  (''info'', JObject [(''title'', JString (apiTitle opts)),
                                       (''version'', JString (apiVersion opts))]),
                  (''paths'', JObject paths),
                  (''components'', JObject [])]"
    unfolding trpc2OpenApi_def by (auto split: sum.splits)
next
  assume "router opts = []"
  then show "trpc2OpenApi conv opts =
        Inr (JObject
               [(''openapi'', JString ''3.1.0''),
                (''info'', JObject [(''title'', JString (apiTitle opts)),
                                     (''version'', JString (apiVersion opts))]),
                (''paths'', JObject []),
                (''components'', JObject [])])"
    by (simp add: trpc2OpenApi_def)
next
  assume "guards_answer (router opts)"
  then show "\<exists>doc'. trpc2OpenApi conv opts = Inr doc'"
    unfolding trpc2OpenApi_def walk_char(1) by simp
qed

theorem document_shape_witness:
  "trpc2OpenApi (\<lambda>z::nat. z)
     \<lparr>apiTitle = ''Test API'', apiVersion = ''1.0.0'', basePath = ''/trpc'', router = []\<rparr> =
     Inr (JObject
            [(''openapi'', JString ''3.1.0''),
             (''info'', JObject [(''title'', JString ''Test API''),
                                  (''version'', JString ''1.0.0'')]),
             (''paths'', JObject []),
             (''components'', JObject [])]) \<and>
   (\<exists>paths.
      getPathsForRouterRecord (\<lambda>z::nat. z) ''/trpc'' [] = Inr paths \<and>
      JObject
        [(''openapi'', JString ''3.1.0''),
         (''info'', JObject [(''title'', JString ''Test API''),
                              (''version'', JString ''1.0.0'')]),
         (''paths'', JObject []),
         (''components'', JObject [])] =
      JObject
        [(''openapi'', JString ''3.1.0''),
         (''info'', JObject [(''title'', JString ''Test API''),
                              (''version'', JString ''1.0.0'')]),
         (''paths'', JObject paths),
         (''components'', JObject [])]) \<and>
   (\<exists>doc'. trpc2OpenApi (\<lambda>z::nat. z)
      \<lparr>apiTitle = ''Test API'', apiVersion = ''1.0.0'', basePath = ''/trpc'',
       router = [(''health'', AnyProcedure \<lparr>type = Query, inputs = [], outputType = None\<rparr>)]\<rparr>
      = Inr doc')"
proof -
  let ?empty = "\<lparr>apiTitle = ''Test API'', apiVersion = ''1.0.0'', basePath = ''/trpc'',
                 router = [] :: nat router_record\<rparr>"
  let ?one = "\<lparr>apiTitle = ''Test API'', apiVersion = ''1.0.0'', basePath = ''/trpc'',
               router = [(''health'',
                 AnyProcedure \<lparr>type = Query, inputs = [], outputType = None :: nat option\<rparr>)]\<rparr>"
  let ?doc = "JObject
        [(''openapi'', JString ''3.1.0''),
         (''info'', JObject [(''title'', JString ''Test API''),
                              (''version'', JString ''1.0.0'')]),
         (''paths'', JObject []),
         (''components'', JObject [])] :: nat json"
  have e: "trpc2OpenApi (\<lambda>z::nat. z) ?empty = Inr ?doc"
    using document_shape [where conv = "\<lambda>z::nat. z" and opts = ?empty and doc = ?doc]
    by simp
  have p: "\<exists>paths.
      getPathsForRouterRecord (\<lambda>z::nat. z) ''/trpc'' [] = Inr paths \<and>
      ?doc = JObject
        [(''openapi'', JString ''3.1.0''),
         (''info'', JObject [(''title'', JString ''Test API''),
                              (''version'', JString ''1.0.0'')]),
         (''paths'', JObject paths),
         (''components'', JObject [])]"
    using document_shape [where conv = "\<lambda>z::nat. z" and opts = ?empty and doc = ?doc] e
    by simp
  have g: "\<exists>doc'. trpc2OpenApi (\<lambda>z::nat. z) ?one = Inr doc'"
    using document_shape [where conv = "\<lambda>z::nat. z" and opts = ?one and doc = ?doc]
    by simp
  from e p g show ?thesis by (intro conjI)
qed

text \<open>
  Records inside records. The recursive call passes the base path on unchanged, so
  whenever the walk of a tree returns, it returns what the walk of the flat record of the
  tree's leaves returns (\<open>nested_equals_flat\<close>). Whether it returns is decided by the
  guard, which reads \<open>_def.procedure\<close> of every entry: for a record with no entry named
  \<open>_def\<close> that is a property of \<open>undefined\<close>. The record \<open>{ hello: query }\<close> under the
  key \<open>group\<close> makes the walk throw, while the flat record \<open>{ hello: query }\<close> gives
  the route \<open>/trpc/hello\<close>; so it is in the functional model and, read off the
  property accesses themselves, in the heap model. A router built by tRPC stores its
  procedures flat, a grouped procedure under the dotted key \<open>group.hello\<close>, so the walk
  of such a router never takes the recursive branch.
\<close>

lemma nested_group_throws:
  "getPathsForRouterRecord (\<lambda>z::nat. z) ''/trpc''
     [(''group'', RouterRecord
        [(''hello'', AnyProcedure \<lparr>type = Query, inputs = [], outputType = None\<rparr>)])]
     = Inl TypeError \<and>
   trpc2OpenApi (\<lambda>z::nat. z)
     \<lparr>apiTitle = ''Test API'', apiVersion = ''1.0.0'', basePath = ''/trpc'',
      router = [(''group'', RouterRecord
        [(''hello'', AnyProcedure \<lparr>type = Query, inputs = [], outputType = None\<rparr>)])]\<rparr>
     = Inl TypeError \<and>
   getPathsForRouterRecord (\<lambda>z::nat. z) ''/trpc''
     [(''hello'', AnyProcedure \<lparr>type = Query, inputs = [], outputType = None\<rparr>)]
     = Inr [(''/trpc/hello'',
             JObject
               [(''get'',
                 JObject
                   [(''operationId'', JString ''hello''),
                    (''responses'',
                     JObject
                       [(''200'',
                         JObject [(''description'', JString ''Successful response'')])])])])] \<and>
   getPathsForRouterRecord_heap (Suc (Suc 0)) (\<lambda>z. z) ''/trpc'' (Ref 4) nested_heap =
     (Throws TypeError, nested_heap @ [Obj []]) \<and>
   getPathsForRouterRecord_heap (Suc 0) (\<lambda>z. z) ''/trpc'' (Ref 3) nested_heap =
     (Returns (Ref 5),
      nested_heap @
      [Obj [(''/trpc/hello'', Ref 9)],
       Obj [(''operationId'', Str ''hello''), (''responses'', Ref 8)],
       Obj [(''description'', Str ''Successful response'')],
       Obj [(''200'', Ref 7)],
       Obj [(''get'', Ref 6)],
       Obj [(''/trpc/hello'', Ref 9)]])"
  by (simp add: getPathsForProcedure_def PROCEDURE_TYPE_HTTP_METHOD_MAP_def trpc2OpenApi_def
        set_property_def Object_assign_def nested_heap_def prog_defs isProcedure_heap_def
        getPathsForProcedure_heap_def Object_assign_heap_def)

text \<open>
  Claim C7. Permuting the entries of a record whose leaves write pairwise different
  routes changes neither whether the walk returns nor the mapping from routes to path
  items that it returns; the same holds for any two trees with the same leaves (as a
  multiset) and the same answer of the guards, which covers reordering inside nested
  groups. When the walk returns and several leaves write one route, the path item of that
  route is the fragment of the last of them in the order of the walk.
\<close>

theorem order_and_collisions:
  "(mset r' = mset r \<and> distinct (routes b r) \<longrightarrow>
      map_sum id map_of (getPathsForRouterRecord conv b r') =
      map_sum id map_of (getPathsForRouterRecord conv b r)) \<and>
   (guards_answer s' = guards_answer s \<and> mset (leaves s') = mset (leaves s) \<and>
    distinct (routes b s) \<longrightarrow>
      map_sum id map_of (getPathsForRouterRecord conv b s') =
      map_sum id map_of (getPathsForRouterRecord conv b s)) \<and>
   (getPathsForRouterRecord conv b t = Inr paths \<and> leaves t = xs @ (n, p) # ys \<and>
    type p \<noteq> Subscription \<and> (\<forall>(n', p') \<in> set ys. n' = n \<longrightarrow> type p' = Subscription) \<longrightarrow>
      (\<exists>item. getPathsForProcedure conv b n p = [(b @ ''/'' @ n, item)] \<and>
              map_of paths (b @ ''/'' @ n) = Some item))"
  using walk_same_leaves [of r' r b conv] guards_answer_perm [of r' r] mset_leaves_perm [of r' r]
        walk_same_leaves [of s' s b conv]
        last_write_wins [of conv b t paths xs n p ys]
  by blast

theorem order_and_collisions_witness:
  "map_sum id map_of
     (getPathsForRouterRecord (\<lambda>z::nat. z) ''/trpc''
        [(''b'', AnyProcedure \<lparr>type = Mutation, inputs = [], outputType = None\<rparr>),
         (''a'', AnyProcedure \<lparr>type = Query, inputs = [], outputType = None\<rparr>)]) =
   map_sum id map_of
     (getPathsForRouterRecord (\<lambda>z::nat. z) ''/trpc''
        [(''a'', AnyProcedure \<lparr>type = Query, inputs = [], outputType = None\<rparr>),
         (''b'', AnyProcedure \<lparr>type = Mutation, inputs = [], outputType = None\<rparr>)]) \<and>
   map_sum id map_of
     (getPathsForRouterRecord (\<lambda>z::nat. z) ''/trpc''
        [(''g'', RouterRecord
           [(''x'', AnyProcedure \<lparr>type = Query, inputs = [], outputType = None\<rparr>),
            (''_def'', AnyProcedure \<lparr>type = Mutation, inputs = [], outputType = None\<rparr>)])]) =
   map_sum id map_of
     (getPathsForRouterRecord (\<lambda>z::nat. z) ''/trpc''
        [(''g'', RouterRecord
           [(''_def'', AnyProcedure \<lparr>type = Mutation, inputs = [], outputType = None\<rparr>),
            (''x'', AnyProcedure \<lparr>type = Query, inputs = [], outputType = None\<rparr>)])]) \<and>
   (\<exists>paths item.
      getPathsForRouterRecord (\<lambda>z::nat. z) ''/trpc''
        [(''x'', AnyProcedure \<lparr>type = Query, inputs = [], outputType = None\<rparr>),
         (''g'', RouterRecord
           [(''_def'', AnyProcedure \<lparr>type = Mutation, inputs = [], outputType = None\<rparr>),
            (''x'', AnyProcedure \<lparr>type = Mutation, inputs = [5], outputType = None\<rparr>)])]
        = Inr paths \<and>
      getPathsForProcedure (\<lambda>z::nat. z) ''/trpc'' ''x''
        \<lparr>type = Mutation, inputs = [5], outputType = None\<rparr> = [(''/trpc/x'', item)] \<and>
      map_of paths ''/trpc/x'' = Some item)"
proof -
  let ?q = "\<lparr>type = Query, inputs = [], outputType = None :: nat option\<rparr>"
  let ?m = "\<lparr>type = Mutation, inputs = [], outputType = None :: nat option\<rparr>"
  let ?m5 = "\<lparr>type = Mutation, inputs = [5::nat], outputType = None\<rparr>"
  let ?t = "[(''x'', AnyProcedure ?q),
             (''g'', RouterRecord [(''_def'', AnyProcedure ?m), (''x'', AnyProcedure ?m5)])]"
  have top: "map_sum id map_of
     (getPathsForRouterRecord (\<lambda>z::nat. z) ''/trpc''
        [(''b'', AnyProcedure ?m), (''a'', AnyProcedure ?q)]) =
   map_sum id map_of
     (getPathsForRouterRecord (\<lambda>z::nat. z) ''/trpc''
        [(''a'', AnyProcedure ?q), (''b'', AnyProcedure ?m)])"
    using order_and_collisions [where conv = "\<lambda>z::nat. z" and b = "''/trpc''"
        and r = "[(''a'', AnyProcedure ?q), (''b'', AnyProcedure ?m)]"
        and r' = "[(''b'', AnyProcedure ?m), (''a'', AnyProcedure ?q)]"]
    by (simp add: routes_def)
  have nested: "map_sum id map_of
     (getPathsForRouterRecord (\<lambda>z::nat. z) ''/trpc''
        [(''g'', RouterRecord [(''x'', AnyProcedure ?q), (''_def'', AnyProcedure ?m)])]) =
   map_sum id map_of
     (getPathsForRouterRecord (\<lambda>z::nat. z) ''/trpc''
        [(''g'', RouterRecord [(''_def'', AnyProcedure ?m), (''x'', AnyProcedure ?q)])])"
    using order_and_collisions [where conv = "\<lambda>z::nat. z" and b = "''/trpc''"
        and s = "[(''g'', RouterRecord [(''_def'', AnyProcedure ?m), (''x'', AnyProcedure ?q)])]"
        and s' = "[(''g'', RouterRecord [(''x'', AnyProcedure ?q), (''_def'', AnyProcedure ?m)])]"]
    by (simp add: routes_def)
  obtain paths where paths: "getPathsForRouterRecord (\<lambda>z::nat. z) ''/trpc'' ?t = Inr paths"
    by (simp add: walk_Inr_iff)
  have "leaves ?t = [(''x'', ?q), (''_def'', ?m)] @ (''x'', ?m5) # []" by simp
  with paths have "\<exists>item.
      getPathsForProcedure (\<lambda>z::nat. z) ''/trpc'' ''x'' ?m5 = [(''/trpc'' @ ''/'' @ ''x'', item)] \<and>
      map_of paths (''/trpc'' @ ''/'' @ ''x'') = Some item"
    using order_and_collisions [where conv = "\<lambda>z::nat. z" and b = "''/trpc''" and t = ?t
        and paths = paths and xs = "[(''x'', ?q), (''_def'', ?m)]" and n = "''x''" and p = ?m5
        and ys = "[]"]
    by simp
  with paths have "\<exists>paths item.
      getPathsForRouterRecord (\<lambda>z::nat. z) ''/trpc'' ?t = Inr paths \<and>
      getPathsForProcedure (\<lambda>z::nat. z) ''/trpc'' ''x'' ?m5 = [(''/trpc/x'', item)] \<and>
      map_of paths ''/trpc/x'' = Some item"
    by auto
  with top nested show ?thesis by blast
qed

text \<open>With a collision the order of the entries does decide the result: the same two
  entries in the two orders give \<open>/trpc/x\<close> the method \<open>post\<close> and the method \<open>get\<close>.\<close>

lemma collision_order_matters:
  "map_sum id (\<lambda>paths. map_of paths ''/trpc/x'')
     (getPathsForRouterRecord (\<lambda>z::nat. z) ''/trpc''
        [(''x'', AnyProcedure \<lparr>type = Query, inputs = [], outputType = None\<rparr>),
         (''g'', RouterRecord
           [(''_def'', AnyProcedure \<lparr>type = Mutation, inputs = [], outputType = None\<rparr>),
            (''x'', AnyProcedure \<lparr>type = Mutation, inputs = [], outputType = None\<rparr>)])])
   = Inr (Some (JObject
       [(''post'',
         JObject
           [(''operationId'', JString ''x''),
            (''responses'',
             JObject [(''200'', JObject [(''description'', JString ''Successful response'')])])])])) \<and>
   map_sum id (\<lambda>paths. map_of paths ''/trpc/x'')
     (getPathsForRouterRecord (\<lambda>z::nat. z) ''/trpc''
        [(''g'', RouterRecord
           [(''_def'', AnyProcedure \<lparr>type = Mutation, inputs = [], outputType = None\<rparr>),
            (''x'', AnyProcedure \<lparr>type = Mutation, inputs = [], outputType = None\<rparr>)]),
         (''x'', AnyProcedure \<lparr>type = Query, inputs = [], outputType = None\<rparr>)])
   = Inr (Some (JObject
       [(''get'',
         JObject
           [(''operationId'', JString ''x''),
            (''responses'',
             JObject [(''200'', JObject [(''description'', JString ''Successful response'')])])])]))"
  by (simp add: getPathsForProcedure_def PROCEDURE_TYPE_HTTP_METHOD_MAP_def
        set_property_def Object_assign_def)



section \<open>Purity\<close>

text \<open>
  Claim C10. Take two invocations of the entry point, on any two heaps that hold the same
  procedure tree and with the same title, version, base path and conversion function,
  each with fuel for the nesting of the tree. Each run leaves every cell that existed
  before it as it was (the heap afterwards starts with the heap before), neither run is
  stuck, and the two runs end the same way: in the exception, or in the document, that
  the functional model computes from the tree and the three strings. The document is read
  back from cells allocated during the run only. The same holds of the walker alone, run
  on any record object of the heap that holds a tree (\<open>walk_post\<close>: the heap grows at its
  end, and the outcome is the exception or the route map of the functional model).
\<close>

theorem pure_and_deterministic:
  fixes h h' :: "('z, 's) heap" and opts opts' :: "('z, 's) val options"
  assumes "represents h (router opts) r" and "depth r \<le> fuel"
    and "represents h' (router opts') r" and "depth r \<le> fuel'"
    and "apiTitle opts' = apiTitle opts" and "apiVersion opts' = apiVersion opts"
    and "basePath opts' = basePath opts"
  shows "take (length h) (snd (trpc2OpenApi_heap fuel conv opts h)) = h \<and>
         take (length h') (snd (trpc2OpenApi_heap fuel' conv opts' h')) = h' \<and>
         agrees (length h) (trpc2OpenApi_heap fuel conv opts h)
           (trpc2OpenApi conv
              \<lparr>apiTitle = apiTitle opts, apiVersion = apiVersion opts,
               basePath = basePath opts, router = r\<rparr>) \<and>
         agrees (length h') (trpc2OpenApi_heap fuel' conv opts' h')
           (trpc2OpenApi conv
              \<lparr>apiTitle = apiTitle opts, apiVersion = apiVersion opts,
               basePath = basePath opts, router = r\<rparr>) \<and>
         (\<forall>x ps t b n.
            x < length h \<and> h ! x = Obj ps \<and> rep_entries (length h) h ps t \<and> depth t \<le> n \<longrightarrow>
            walk_post h (getPathsForRouterRecord_heap n conv b (Ref x) h)
              (getPathsForRouterRecord conv b t))"
proof -
  have "walk_post h (getPathsForRouterRecord_heap n conv b (Ref x) h)
          (getPathsForRouterRecord conv b t)"
    if "x < length h" "h ! x = Obj ps" "rep_entries (length h) h ps t" "depth t \<le> n"
    for x ps t b n
    using walk_heap_refines(1) [rule_format, of x "length h" h ps t n conv b] that by simp
  then show ?thesis
    using document_heap [OF assms(1,2), of conv] document_heap [OF assms(3,4), of conv] assms(5-7)
    by simp
qed

theorem pure_and_deterministic_witness:
  "represents health_heap (Ref 5) health_tree \<and>
   represents health_heap_shifted (Ref 1) health_tree \<and>
   depth health_tree \<le> 1 \<and>
   take (length health_heap)
     (snd (trpc2OpenApi_heap 1 (\<lambda>z. z)
        \<lparr>apiTitle = ''Test API'', apiVersion = ''1.0.0'', basePath = ''/trpc'', router = Ref 5\<rparr>
        health_heap)) = health_heap \<and>
   take (length health_heap_shifted)
     (snd (trpc2OpenApi_heap 3 (\<lambda>z. z)
        \<lparr>apiTitle = ''Test API'', apiVersion = ''1.0.0'', basePath = ''/trpc'', router = Ref 1\<rparr>
        health_heap_shifted)) = health_heap_shifted \<and>
   agrees (length health_heap)
     (trpc2OpenApi_heap 1 (\<lambda>z. z)
        \<lparr>apiTitle = ''Test API'', apiVersion = ''1.0.0'', basePath = ''/trpc'', router = Ref 5\<rparr>
        health_heap)
     (Inr (JObject
        [(''openapi'', JString ''3.1.0''),
         (''info'', JObject [(''title'', JString ''Test API''), (''version'', JString ''1.0.0'')]),
         (''paths'',
          JObject
            [(''/trpc/health'',
              JObject
                [(''get'',
                  JObject
                    [(''operationId'', JString ''health''),
                     (''responses'',
                      JObject
                        [(''200'',
                          JObject [(''description'', JString ''Successful response'')])])])])]),
         (''components'', JObject [])])) \<and>
   agrees (length health_heap_shifted)
     (trpc2OpenApi_heap 3 (\<lambda>z. z)
        \<lparr>apiTitle = ''Test API'', apiVersion = ''1.0.0'', basePath = ''/trpc'', router = Ref 1\<rparr>
        health_heap_shifted)
     (Inr (JObject
        [(''openapi'', JString ''3.1.0''),
         (''info'', JObject [(''title'', JString ''Test API''), (''version'', JString ''1.0.0'')]),
         (''paths'',
          JObject
            [(''/trpc/health'',
              JObject
                [(''get'',
                  JObject
                    [(''operationId'', JString ''health''),
                     (''responses'',
                      JObject
                        [(''200'',
                          JObject [(''description'', JString ''Successful response'')])])])])]),
         (''components'', JObject [])])) \<and>
   walk_post health_heap
     (getPathsForRouterRecord_heap 1 (\<lambda>z. z) ''/trpc'' (Ref 3) health_heap)
     (getPathsForRouterRecord (\<lambda>z. z) ''/trpc'' health_tree)"
proof -
  let ?o1 = "\<lparr>apiTitle = ''Test API'', apiVersion = ''1.0.0'', basePath = ''/trpc'',
              router = Ref 5 :: (nat, nat) val\<rparr>"
  let ?o2 = "\<lparr>apiTitle = ''Test API'', apiVersion = ''1.0.0'', basePath = ''/trpc'',
              router = Ref 1 :: (nat, nat) val\<rparr>"
  have d: "depth health_tree \<le> 1" "depth health_tree \<le> 3"
    by (simp_all add: health_tree_def)
  have r1: "represents health_heap (router ?o1) health_tree" using rep1 by simp
  have r2: "represents health_heap_shifted (router ?o2) health_tree" using rep2 by simp
  have doc: "trpc2OpenApi (\<lambda>z::nat. z)
               \<lparr>apiTitle = apiTitle ?o1, apiVersion = apiVersion ?o1, basePath = basePath ?o1,
                router = health_tree\<rparr> =
             Inr (JObject
        [(''openapi'', JString ''3.1.0''),
         (''info'', JObject [(''title'', JString ''Test API''), (''version'', JString ''1.0.0'')]),
         (''paths'',
          JObject
            [(''/trpc/health'',
              JObject
                [(''get'',
                  JObject
                    [(''operationId'', JString ''health''),
                     (''responses'',
                      JObject
                        [(''200'',
                          JObject [(''description'', JString ''Successful response'')])])])])]),
         (''components'', JObject [])])"
    by (simp add: trpc2OpenApi_def health_tree_def getPathsForProcedure_def
          PROCEDURE_TYPE_HTTP_METHOD_MAP_def set_property_def Object_assign_def)
  note run = pure_and_deterministic [OF r1 d(1) r2 d(2), of "\<lambda>z. z"]
  have "walk_post health_heap
          (getPathsForRouterRecord_heap 1 (\<lambda>z. z) ''/trpc'' (Ref 3) health_heap)
          (getPathsForRouterRecord (\<lambda>z. z) ''/trpc'' health_tree)"
  proof -
    have "rep_procedure (length health_heap) health_heap (Ref 2)
            \<lparr>type = Query, inputs = [], outputType = None\<rparr>"
      by (rule rep_procedureI [of 2 _ 1 0]) (simp add: health_heap_def type_name_def)+
    then have "rep_entries (length health_heap) health_heap [(''health'', Ref 2)] health_tree"
      by (simp add: health_tree_def)
    moreover have "3 < length health_heap" "health_heap ! 3 = Obj [(''health'', Ref 2)]"
      by (simp_all add: health_heap_def)
    ultimately show ?thesis
      using run [THEN conjunct2, THEN conjunct2, THEN conjunct2, THEN conjunct2, rule_format,
                 of 3 "[(''health'', Ref 2)]" health_tree 1 "''/trpc''"] d(1)
      by simp
  qed
  with run show ?thesis
    unfolding doc using rep1 rep2 d(1) by simp
qed

end
